theory Spec2Isabelle
  imports Main "HOL-Library.Sublist" "HOL-Library.Multiset" "HOL-Library.AList"
begin

section \<open>The Bible-verse clock: a shallow embedding of bible\_verse.py\<close>

text \<open>
  The module turns the local time into a chapter and a verse, picks a book that has that
  chapter, obtains the verse text from a JSON file cache or from the bolls.life API, and
  draws it. The definitions below follow the Python source function by function.

  Python \<open>str\<close> values that carry verse text are sequences of Unicode code points and are
  modelled as lists of natural numbers (\<open>ustr\<close>); book names, translation names, URLs and
  cache keys are plain ASCII and are modelled as \<open>string\<close>. Python integers are \<open>int\<close>.
\<close>

subsection \<open>Text: code points, whitespace, strip and split\<close>

type_synonym ustr = "nat list"

definition ustr_of :: "string \<Rightarrow> ustr" where
  "ustr_of s = map of_char s"

definition SP :: nat where "SP = 32"
definition LT :: nat where "LT = 60"
definition GT :: nat where "GT = 62"

text \<open>
  \<open>str.isspace\<close>, \<open>str.strip()\<close>, \<open>str.split()\<close> and the regex class \<open>\s\<close> on a
  \<open>str\<close> pattern all use the same table of Unicode whitespace code points.
\<close>

definition isspace :: "nat \<Rightarrow> bool" where
  "isspace c \<longleftrightarrow>
     (9 \<le> c \<and> c \<le> 13) \<or> (28 \<le> c \<and> c \<le> 32) \<or> c = 133 \<or> c = 160 \<or> c = 5760 \<or>
     (8192 \<le> c \<and> c \<le> 8202) \<or> c = 8232 \<or> c = 8233 \<or> c = 8239 \<or> c = 8287 \<or> c = 12288"

text \<open>\<open>s.strip()\<close>: drop the whitespace at both ends.\<close>

definition strip :: "ustr \<Rightarrow> ustr" where
  "strip s = rev (dropWhile isspace (rev (dropWhile isspace s)))"

text \<open>
  \<open>s.split()\<close>: the maximal runs of non-whitespace characters, in order. The first
  argument is the word read so far.
\<close>

fun split_go :: "ustr \<Rightarrow> ustr \<Rightarrow> ustr list" where
  "split_go w [] = (if w = [] then [] else [w])"
| "split_go w (c # cs) =
     (if isspace c then (if w = [] then split_go [] cs else w # split_go [] cs)
      else split_go (w @ [c]) cs)"

definition split :: "ustr \<Rightarrow> ustr list" where
  "split s = split_go [] s"

text \<open>\<open>re.sub(r'<[^>]+>', '', text)\<close>: scanning from the left, a \<open><\<close> followed by one or
  more characters other than \<open>>\<close> and then a \<open>>\<close> is deleted, and the scan resumes after
  it; any other character is kept.\<close>

function strip_tags :: "ustr \<Rightarrow> ustr" where
  "strip_tags [] = []"
| "strip_tags (c # cs) =
     (if c = LT \<and> takeWhile (\<lambda>x. x \<noteq> GT) cs \<noteq> [] \<and> dropWhile (\<lambda>x. x \<noteq> GT) cs \<noteq> []
      then strip_tags (tl (dropWhile (\<lambda>x. x \<noteq> GT) cs))
      else c # strip_tags cs)"
  by pat_completeness auto
termination
proof (relation "measure length")
  fix c :: nat and cs :: ustr
  have "length (tl (dropWhile (\<lambda>x. x \<noteq> GT) cs)) \<le> length (dropWhile (\<lambda>x. x \<noteq> GT) cs)"
    by simp
  also have "\<dots> \<le> length cs"
    by (rule length_dropWhile_le)
  finally have "length (tl (dropWhile (\<lambda>x. x \<noteq> GT) cs)) \<le> length cs" .
  then show "(tl (dropWhile (\<lambda>x. x \<noteq> GT) cs), c # cs) \<in> measure length"
    by simp
qed simp_all

text \<open>\<open>re.sub(r'\s+', ' ', text)\<close>: every maximal run of whitespace becomes one space.\<close>

function collapse_ws :: "ustr \<Rightarrow> ustr" where
  "collapse_ws [] = []"
| "collapse_ws (c # cs) =
     (if isspace c then SP # collapse_ws (dropWhile isspace cs) else c # collapse_ws cs)"
  by pat_completeness auto
termination
proof (relation "measure length")
  fix c :: nat and cs :: ustr
  have "length (dropWhile isspace cs) \<le> length cs"
    by (rule length_dropWhile_le)
  then show "(dropWhile isspace cs, c # cs) \<in> measure length"
    by simp
qed simp_all

subsection \<open>Time to chapter and verse (generate\_image, lines 284 to 300)\<close>

record local_time =
  hour :: int
  minute :: int
  dst :: bool

datatype dst_override = AlwaysDst | NeverDst | NoOverride

text \<open>
  Adding or subtracting one hour of wall-clock time changes the hour modulo 24 and leaves
  the minute alone; the zone information, and with it \<open>now.dst()\<close>, stays as it was.
\<close>

definition add_hours :: "int \<Rightarrow> local_time \<Rightarrow> local_time" where
  "add_hours k now = now\<lparr>hour := (hour now + k) mod 24\<rparr>"

definition apply_dst_override :: "dst_override \<Rightarrow> local_time \<Rightarrow> local_time" where
  "apply_dst_override ov now =
     (case ov of
        AlwaysDst \<Rightarrow> (if \<not> dst now then add_hours 1 now else now)
      | NeverDst \<Rightarrow> (if dst now then add_hours (- 1) now else now)
      | NoOverride \<Rightarrow> now)"

definition select_chapter :: "local_time \<Rightarrow> int" where
  "select_chapter now = (if hour now \<noteq> 0 then hour now else 24)"

definition select_verse :: "local_time \<Rightarrow> int" where
  "select_verse now = (if minute now \<noteq> 0 then minute now else 1)"

text \<open>A local time as \<open>datetime\<close> can hold it.\<close>

definition valid_time :: "local_time \<Rightarrow> bool" where
  "valid_time now \<longleftrightarrow> 0 \<le> hour now \<and> hour now < 24 \<and> 0 \<le> minute now \<and> minute now < 60"

subsection \<open>The tables BOOKS and TRANSLATIONS\<close>

text \<open>Each entry of \<open>BOOKS\<close>: display name, bolls.life book id, number of chapters.\<close>

definition BOOKS :: "(string \<times> int \<times> int) list" where
  "BOOKS =
    [(''Genesis'', 1, 50), (''Exodus'', 2, 40),
     (''Leviticus'', 3, 27), (''Numbers'', 4, 36),
     (''Deuteronomy'', 5, 34), (''Joshua'', 6, 24),
     (''Judges'', 7, 21), (''Ruth'', 8, 4),
     (''1 Samuel'', 9, 31), (''2 Samuel'', 10, 24),
     (''1 Kings'', 11, 22), (''2 Kings'', 12, 25),
     (''1 Chronicles'', 13, 29), (''2 Chronicles'', 14, 36),
     (''Ezra'', 15, 10), (''Nehemiah'', 16, 13),
     (''Esther'', 17, 10), (''Job'', 18, 42),
     (''Psalm'', 19, 150), (''Proverbs'', 20, 31),
     (''Ecclesiastes'', 21, 12), (''Song of Solomon'', 22, 8),
     (''Isaiah'', 23, 66), (''Jeremiah'', 24, 52),
     (''Lamentations'', 25, 5), (''Ezekiel'', 26, 48),
     (''Daniel'', 27, 12), (''Hosea'', 28, 14),
     (''Joel'', 29, 3), (''Amos'', 30, 9),
     (''Obadiah'', 31, 1), (''Jonah'', 32, 4),
     (''Micah'', 33, 7), (''Nahum'', 34, 3),
     (''Habakkuk'', 35, 3), (''Zephaniah'', 36, 3),
     (''Haggai'', 37, 2), (''Zechariah'', 38, 14),
     (''Malachi'', 39, 4),
     (''Matthew'', 40, 28), (''Mark'', 41, 16),
     (''Luke'', 42, 24), (''John'', 43, 21),
     (''Acts'', 44, 28), (''Romans'', 45, 16),
     (''1 Corinthians'', 46, 16), (''2 Corinthians'', 47, 13),
     (''Galatians'', 48, 6), (''Ephesians'', 49, 6),
     (''Philippians'', 50, 4), (''Colossians'', 51, 4),
     (''1 Thessalonians'', 52, 5), (''2 Thessalonians'', 53, 3),
     (''1 Timothy'', 54, 6), (''2 Timothy'', 55, 4),
     (''Titus'', 56, 3), (''Philemon'', 57, 1),
     (''Hebrews'', 58, 13), (''James'', 59, 5),
     (''1 Peter'', 60, 5), (''2 Peter'', 61, 3),
     (''1 John'', 62, 5), (''2 John'', 63, 1),
     (''3 John'', 64, 1), (''Jude'', 65, 1),
     (''Revelation'', 66, 22)]"

definition TRANSLATIONS :: "(string \<times> string) list" where
  "TRANSLATIONS =
    [(''NASB'', ''https://bolls.life/get-verse/NASB''),
     (''KJV'', ''https://bolls.life/get-verse/KJV''),
     (''NIV'', ''https://bolls.life/get-verse/NIV''),
     (''ESV'', ''https://bolls.life/get-verse/ESV''),
     (''NKJV'', ''https://bolls.life/get-verse/NKJV''),
     (''NLT'', ''https://bolls.life/get-verse/NLT''),
     (''CSB'', ''https://bolls.life/get-verse/CSB'')]"

subsection \<open>Formatting integers into strings\<close>

text \<open>\<open>str(n)\<close> as the f-strings of the source apply it to an integer: decimal digits,
  with a minus sign for a negative number.\<close>

definition digit_char :: "nat \<Rightarrow> char" where
  "digit_char d = ''0123456789'' ! d"

fun digits :: "nat \<Rightarrow> string" where
  "digits n = (if n < 10 then [digit_char n] else digits (n div 10) @ [digit_char (n mod 10)])"

declare digits.simps [simp del]

definition str_int :: "int \<Rightarrow> string" where
  "str_int i = (if i < 0 then CHR ''-'' # digits (nat (- i)) else digits (nat i))"

subsection \<open>The world outside: cache files and the network\<close>

text \<open>
  A cache file is absent; or unreadable in a way that \<open>load_cache\<close> catches (an I/O
  error or invalid JSON); or holds bytes that are not UTF-8, so that reading it raises
  \<open>UnicodeDecodeError\<close>, which \<open>load_cache\<close> does not catch; or holds a JSON value
  that is not an object; or holds a JSON object from keys to verse texts, its members in
  document order, as \<open>save_cache\<close> writes it.
\<close>

datatype file_state =
    NoFile
  | BadFile
  | Undecodable
  | NonObject
  | CacheFile "(string \<times> ustr) list"

text \<open>What \<open>json.load\<close> returned: a dict, or a value of another type.\<close>

datatype cache_data = Dict "(string \<times> ustr) list" | NotDict

text \<open>
  A string can be written to a UTF-8 file unless it holds a lone surrogate (a code point
  from U+D800 to U+DFFF), which a JSON escape in a response can put there.
\<close>

definition encodable :: "ustr \<Rightarrow> bool" where
  "encodable t \<longleftrightarrow> (\<forall>c\<in>set t. \<not> (55296 \<le> c \<and> c \<le> 57343))"

text \<open>A parsed JSON value; an object is its list of members in document order.\<close>

datatype json =
    JObj "(ustr \<times> json) list"
  | JArr "json list"
  | JStr ustr
  | JNum int
  | JBool bool
  | JNull

text \<open>
  What \<open>urlopen\<close>, \<open>resp.read()\<close> and \<open>json.loads\<close> together yield for a URL: a
  \<open>URLError\<close> (which includes HTTP error statuses), a \<open>JSONDecodeError\<close>, some other
  exception (such as a read timeout), or a parsed JSON value.
\<close>

datatype response = URLError | JSONDecodeError | OtherError | Json json

text \<open>Exceptions that leave \<open>fetch_verse\<close> uncaught.\<close>

datatype exn =
    TypeError
  | AttributeError
  | UnicodeDecodeError
  | UnicodeEncodeError
  | OtherExn

text \<open>
  The message of a call of \<open>set_download_status\<close>: the start, a progress report (the
  translation, the number of verses downloaded and the total number of combinations it is
  reported against), the completion (with the number of translations) and an error.
\<close>

datatype status_msg = Starting | Progress string int int | Completed nat | Failed exn

text \<open>
  The observable effects, in order: an HTTP GET of a URL, an attempted write of a cache
  file, and a call of \<open>set_download_status\<close> with its status word and message. (The
  numeric progress field, computed in floating point, and the timestamp are left out.)
\<close>

datatype event =
    HttpGet string
  | WriteFile string
  | SetStatus string status_msg

record world =
  files :: "string \<Rightarrow> file_state"
  writable :: "string \<Rightarrow> bool"
  net :: "string \<Rightarrow> response"
  trace :: "event list"

subsection \<open>BibleCache\<close>

record BibleCache =
  cache_dir :: string

definition get_cache_file :: "BibleCache \<Rightarrow> string \<Rightarrow> string" where
  "get_cache_file c translation = cache_dir c @ ''/'' @ translation @ ''.json''"

text \<open>
  \<open>load_cache\<close> catches \<open>JSONDecodeError\<close> and \<open>IOError\<close> and then returns an empty
  dict; a \<open>UnicodeDecodeError\<close> propagates; a JSON value of any type is returned as it is.
\<close>

definition load_cache :: "BibleCache \<Rightarrow> string \<Rightarrow> world \<Rightarrow> exn + cache_data" where
  "load_cache c translation w =
     (case files w (get_cache_file c translation) of
        NoFile \<Rightarrow> Inr (Dict [])
      | BadFile \<Rightarrow> Inr (Dict [])
      | Undecodable \<Rightarrow> Inl UnicodeDecodeError
      | NonObject \<Rightarrow> Inr NotDict
      | CacheFile d \<Rightarrow> Inr (Dict d))"

text \<open>
  \<open>save_cache\<close>: an \<open>IOError\<close> on opening the file for writing is logged and swallowed,
  and the file stays as it was. Once the file is open it has been truncated; \<open>json.dump\<close>
  with \<open>ensure_ascii=False\<close> then writes the data, or raises \<open>UnicodeEncodeError\<close> at the
  first text that cannot be encoded, which \<open>except IOError\<close> does not catch: the exception
  propagates and the file is left holding an unfinished JSON text.
\<close>

definition save_cache ::
  "BibleCache \<Rightarrow> string \<Rightarrow> (string \<times> ustr) list \<Rightarrow> world \<Rightarrow> exn option \<times> world" where
  "save_cache c translation data w =
     (let cache_file = get_cache_file c translation;
          w1 = w\<lparr>trace := trace w @ [WriteFile cache_file]\<rparr>
      in if \<not> writable w cache_file then (None, w1)
         else if (\<forall>(k, t)\<in>set data. encodable t)
         then (None, w1\<lparr>files := (files w)(cache_file := CacheFile data)\<rparr>)
         else (Some UnicodeEncodeError, w1\<lparr>files := (files w)(cache_file := BadFile)\<rparr>))"

definition cache_key :: "int \<Rightarrow> int \<Rightarrow> int \<Rightarrow> string" where
  "cache_key book_id chapter verse =
     str_int book_id @ ''_'' @ str_int chapter @ ''_'' @ str_int verse"

text \<open>\<open>cache.get(key)\<close>: a value that is not a dict has no \<open>get\<close>.\<close>

definition get_verse_from_cache ::
  "BibleCache \<Rightarrow> string \<Rightarrow> int \<Rightarrow> int \<Rightarrow> int \<Rightarrow> world \<Rightarrow> exn + ustr option" where
  "get_verse_from_cache c translation book_id chapter verse w =
     (case load_cache c translation w of
        Inl e \<Rightarrow> Inl e
      | Inr NotDict \<Rightarrow> Inl AttributeError
      | Inr (Dict cache) \<Rightarrow> Inr (map_of cache (cache_key book_id chapter verse)))"

text \<open>
  \<open>cache[key] = text\<close>: the value of an existing key is replaced in place, a new key is
  added at the end; a value that is not a dict cannot be assigned to by a string key.
\<close>

definition save_verse_to_cache ::
  "BibleCache \<Rightarrow> string \<Rightarrow> int \<Rightarrow> int \<Rightarrow> int \<Rightarrow> ustr \<Rightarrow> world \<Rightarrow> exn option \<times> world" where
  "save_verse_to_cache c translation book_id chapter verse text w =
     (case load_cache c translation w of
        Inl e \<Rightarrow> (Some e, w)
      | Inr NotDict \<Rightarrow> (Some TypeError, w)
      | Inr (Dict cache) \<Rightarrow>
          save_cache c translation
            (AList.update (cache_key book_id chapter verse) text cache) w)"

subsection \<open>fetch\_verse\<close>

definition api_base :: "string \<Rightarrow> string" where
  "api_base translation =
     (case map_of TRANSLATIONS translation of
        Some u \<Rightarrow> u
      | None \<Rightarrow> ''https://bolls.life/get-verse/NASB'')"

definition verse_url :: "string \<Rightarrow> int \<Rightarrow> int \<Rightarrow> int \<Rightarrow> string" where
  "verse_url translation book_id chapter verse =
     api_base translation @ ''/'' @ str_int book_id @ ''/'' @ str_int chapter @ ''/''
       @ str_int verse @ ''/''"

text \<open>
  \<open>"text" in data\<close>: key membership for an object, element membership for an array,
  substring test for a string, and a \<open>TypeError\<close> for a number, a boolean or null.
\<close>

definition has_text :: "json \<Rightarrow> exn + bool" where
  "has_text data =
     (case data of
        JObj kvs \<Rightarrow> Inr (ustr_of ''text'' \<in> fst ` set kvs)
      | JArr xs \<Rightarrow> Inr (JStr (ustr_of ''text'') \<in> set xs)
      | JStr s \<Rightarrow> Inr (sublist (ustr_of ''text'') s)
      | JNum n \<Rightarrow> Inl TypeError
      | JBool b \<Rightarrow> Inl TypeError
      | JNull \<Rightarrow> Inl TypeError)"

text \<open>
  \<open>data["text"].strip()\<close> once \<open>"text" in data\<close> holds: for an object the value of the
  last member named text, which must be a string (anything else has no \<open>strip\<close>);
  indexing an array or a string by \<open>"text"\<close> is a \<open>TypeError\<close>.
\<close>

definition text_field :: "json \<Rightarrow> exn + ustr" where
  "text_field data =
     (case data of
        JObj kvs \<Rightarrow>
          (case map_of (rev kvs) (ustr_of ''text'') of
             Some (JStr s) \<Rightarrow> Inr (strip s)
           | _ \<Rightarrow> Inl AttributeError)
      | _ \<Rightarrow> Inl TypeError)"

text \<open>
  The cache lookup at the head of \<open>fetch_verse\<close> and the save at line 161 (inside
  \<open>try\<close>, but none of its exceptions is among those caught) may raise.
\<close>

definition fetch_verse ::
  "string \<Rightarrow> int \<Rightarrow> int \<Rightarrow> int \<Rightarrow> BibleCache option \<Rightarrow> world \<Rightarrow> (exn + ustr option) \<times> world" where
  "fetch_verse translation book_id chapter verse cache w =
     (case (case cache of
              None \<Rightarrow> Inr None
            | Some c \<Rightarrow> get_verse_from_cache c translation book_id chapter verse w) of
        Inl e \<Rightarrow> (Inl e, w)
      | Inr cached_text \<Rightarrow>
          if cached_text \<noteq> None \<and> cached_text \<noteq> Some []
          then (Inr cached_text, w)
          else
            let url = verse_url translation book_id chapter verse;
                w1 = w\<lparr>trace := trace w @ [HttpGet url]\<rparr>
            in case net w url of
                 URLError \<Rightarrow> (Inr None, w1)
               | JSONDecodeError \<Rightarrow> (Inr None, w1)
               | OtherError \<Rightarrow> (Inl OtherExn, w1)
               | Json data \<Rightarrow>
                   (case has_text data of
                      Inl e \<Rightarrow> (Inl e, w1)
                    | Inr False \<Rightarrow> (Inr None, w1)
                    | Inr True \<Rightarrow>
                        (case text_field data of
                           Inl e \<Rightarrow> (Inl e, w1)
                         | Inr t0 \<Rightarrow>
                             let t1 = strip_tags t0;
                                 text = strip (collapse_ws t1)
                             in (case cache of
                                   None \<Rightarrow> (Inr (Some text), w1)
                                 | Some c \<Rightarrow>
                                     (case save_verse_to_cache c translation book_id chapter
                                             verse text w1 of
                                        (Some e, w2) \<Rightarrow> (Inl e, w2)
                                      | (None, w2) \<Rightarrow> (Inr (Some text), w2))))))"

text \<open>Every request is answered by an object whose text holds a \<open><\<close> directly followed by \<open>>\<close>.\<close>

definition w_neq :: world where
  "w_neq = \<lparr>files = (\<lambda>p. NoFile), writable = (\<lambda>p. True),
     net = (\<lambda>u. Json (JObj [(ustr_of ''text'', JStr (ustr_of ''x <> y''))])),
     trace = []\<rparr>"

subsection \<open>pick\_book\_and\_fetch\<close>

text \<open>The list comprehension of line 210: name and id of every book with enough chapters.\<close>

definition candidates :: "int \<Rightarrow> (string \<times> int) list" where
  "candidates chapter = [(name, book_id). (name, book_id, max_ch) \<leftarrow> BOOKS, max_ch \<ge> chapter]"

definition DEFAULT_VERSE :: "string \<times> ustr" where
  "DEFAULT_VERSE = (''Psalm'', ustr_of ''The Lord is my shepherd; I shall not want.'')"

text \<open>
  The three ways \<open>pick_book_and_fetch\<close> returns: at line 213 (no candidate), at line 218
  (a fetch gave a non-empty text) and at line 220 (every candidate tried in vain).
\<close>

datatype pick = NoCandidates | Found string ustr | Exhausted

text \<open>The \<open>for\<close> loop of lines 215 to 218; an exception of \<open>fetch_verse\<close> propagates.\<close>

fun try_candidates ::
  "string \<Rightarrow> int \<Rightarrow> int \<Rightarrow> BibleCache option \<Rightarrow> (string \<times> int) list \<Rightarrow> world
     \<Rightarrow> (exn + pick) \<times> world" where
  "try_candidates translation chapter verse cache [] w = (Inr Exhausted, w)"
| "try_candidates translation chapter verse cache ((name, book_id) # rest) w =
     (case fetch_verse translation book_id chapter verse cache w of
        (Inl e, w') \<Rightarrow> (Inl e, w')
      | (Inr None, w') \<Rightarrow> try_candidates translation chapter verse cache rest w'
      | (Inr (Some t), w') \<Rightarrow>
          if t \<noteq> [] then (Inr (Found name t), w')
          else try_candidates translation chapter verse cache rest w')"

text \<open>
  \<open>random.shuffle\<close> is the parameter \<open>shuffle\<close>; the theorems assume of it only that it
  returns a permutation of its argument.
\<close>

definition pick_path ::
  "((string \<times> int) list \<Rightarrow> (string \<times> int) list) \<Rightarrow> string \<Rightarrow> int \<Rightarrow> int \<Rightarrow> BibleCache option
     \<Rightarrow> world \<Rightarrow> (exn + pick) \<times> world" where
  "pick_path shuffle translation chapter verse cache w =
     (if candidates chapter = [] then (Inr NoCandidates, w)
      else try_candidates translation chapter verse cache (shuffle (candidates chapter)) w)"

fun pick_result :: "pick \<Rightarrow> string \<times> ustr" where
  "pick_result NoCandidates = DEFAULT_VERSE"
| "pick_result (Found name t) = (name, t)"
| "pick_result Exhausted = DEFAULT_VERSE"

definition pick_book_and_fetch ::
  "((string \<times> int) list \<Rightarrow> (string \<times> int) list) \<Rightarrow> string \<Rightarrow> int \<Rightarrow> int \<Rightarrow> BibleCache option
     \<Rightarrow> world \<Rightarrow> (exn + string \<times> ustr) \<times> world" where
  "pick_book_and_fetch shuffle translation chapter verse cache w =
     (case pick_path shuffle translation chapter verse cache w of
        (Inl e, w') \<Rightarrow> (Inl e, w')
      | (Inr p, w') \<Rightarrow> (Inr (pick_result p), w'))"

text \<open>
  \<open>fetch_verse\<close> returned without an exception and without a usable text: \<open>None\<close>, or
  the empty string, which \<open>if text:\<close> treats alike.
\<close>

definition no_text :: "exn + ustr option \<Rightarrow> bool" where
  "no_text r \<longleftrightarrow> r = Inr None \<or> r = Inr (Some [])"

text \<open>
  What the cache lookup at the head of \<open>fetch_verse\<close> yields, and the case that it
  returns no usable text, so that \<open>fetch_verse\<close> goes to the network.
\<close>

definition cached_text ::
  "string \<Rightarrow> int \<Rightarrow> int \<Rightarrow> int \<Rightarrow> BibleCache option \<Rightarrow> world \<Rightarrow> exn + ustr option" where
  "cached_text tr b ch v cache w =
     (case cache of None \<Rightarrow> Inr None | Some c \<Rightarrow> get_verse_from_cache c tr b ch v w)"

definition miss :: "string \<Rightarrow> int \<Rightarrow> int \<Rightarrow> int \<Rightarrow> BibleCache option \<Rightarrow> world \<Rightarrow> bool" where
  "miss tr b ch v cache w \<longleftrightarrow>
     cached_text tr b ch v cache w = Inr None \<or> cached_text tr b ch v cache w = Inr (Some [])"

text \<open>
  What lines 151 to 159 make of a response, apart from the save: the cleaned text, no
  text, or an exception.
\<close>

definition api_text :: "response \<Rightarrow> exn + ustr option" where
  "api_text r =
     (case r of
        URLError \<Rightarrow> Inr None
      | JSONDecodeError \<Rightarrow> Inr None
      | OtherError \<Rightarrow> Inl OtherExn
      | Json data \<Rightarrow>
          (case has_text data of
             Inl e \<Rightarrow> Inl e
           | Inr False \<Rightarrow> Inr None
           | Inr True \<Rightarrow>
               (case text_field data of
                  Inl e \<Rightarrow> Inl e
                | Inr t0 \<Rightarrow> Inr (Some (strip (collapse_ws (strip_tags t0)))))))"

text \<open>The dict that \<open>load_cache\<close> returns for a file, if it returns one.\<close>

definition dict_of :: "file_state \<Rightarrow> (string \<times> ustr) list option" where
  "dict_of f =
     (case f of
        NoFile \<Rightarrow> Some []
      | BadFile \<Rightarrow> Some []
      | Undecodable \<Rightarrow> None
      | NonObject \<Rightarrow> None
      | CacheFile d \<Rightarrow> Some d)"

text \<open>
  \<open>cache_sim w0 w\<close>: the world \<open>w\<close> differs from \<open>w0\<close> at most by its trace and by
  cache files in which keys have been set to the empty text.
\<close>

definition cache_sim :: "world \<Rightarrow> world \<Rightarrow> bool" where
  "cache_sim w0 w \<longleftrightarrow>
     net w = net w0 \<and> writable w = writable w0 \<and>
     (\<forall>p. files w p = files w0 p \<or>
          (\<exists>d d0. files w p = CacheFile d \<and> dict_of (files w0 p) = Some d0 \<and>
             (\<forall>k. map_of d k = map_of d0 k \<or> map_of d k = Some []) \<and>
             (\<forall>(k, x)\<in>set d. x = [] \<or> (k, x) \<in> set d0)))"

subsection \<open>download\_all\_verses\<close>

text \<open>An \<open>IOError\<close> while writing the status file is logged and swallowed.\<close>

definition set_download_status :: "string \<Rightarrow> status_msg \<Rightarrow> world \<Rightarrow> world" where
  "set_download_status status msg w = w\<lparr>trace := trace w @ [SetStatus status msg]\<rparr>"

text \<open>
  The state of the download loops: the counter \<open>downloaded_verses\<close>, the world, and,
  as a record of what the loops did, the arguments (translation, book id, chapter, verse)
  of every call of \<open>fetch_verse\<close> made so far together with what each call gave: a
  result, or the exception it raised.
\<close>

record download =
  downloaded_verses :: int
  attempted :: "(string \<times> int \<times> int \<times> int) list"
  results :: "(exn + ustr option) list"
  dl_world :: world

text \<open>
  A \<open>for\<close> loop whose body may raise: the exception ends the loop and carries the state
  reached.
\<close>

fun for_each :: "('a \<Rightarrow> 's \<Rightarrow> ('e \<times> 's) + 's) \<Rightarrow> 'a list \<Rightarrow> 's \<Rightarrow> ('e \<times> 's) + 's" where
  "for_each body [] s = Inr s"
| "for_each body (x # xs) s =
     (case body x s of
        Inl err \<Rightarrow> Inl err
      | Inr s' \<Rightarrow> for_each body xs s')"

text \<open>The body of the innermost loop, lines 183 to 198.\<close>

definition verse_step ::
  "BibleCache \<Rightarrow> int \<Rightarrow> string \<Rightarrow> int \<Rightarrow> int \<Rightarrow> download \<Rightarrow> (exn \<times> download) + download" where
  "verse_step cache total_combinations translation chapter verse s =
     (case [book_id. (name, book_id, max_ch) \<leftarrow> BOOKS, max_ch \<ge> chapter] of
        [] \<Rightarrow> Inr s
      | book_id # others \<Rightarrow>
          (case fetch_verse translation book_id chapter verse (Some cache) (dl_world s) of
             (r, w') \<Rightarrow>
               let s1 = s\<lparr>attempted := attempted s @ [(translation, book_id, chapter, verse)],
                          results := results s @ [r]\<rparr>
               in case r of
                    Inl e \<Rightarrow> Inl (e, s1\<lparr>dl_world := w'\<rparr>)
                  | Inr text \<Rightarrow>
                      let d = downloaded_verses s + 1;
                          w'' = (if d mod 100 = 0
                                 then set_download_status ''downloading''
                                        (Progress translation d total_combinations) w'
                                 else w')
                      in Inr (s1\<lparr>downloaded_verses := d, dl_world := w''\<rparr>)))"

text \<open>
  The whole function: the three nested loops inside \<open>try\<close>, then the completion status,
  or, from the \<open>except Exception\<close> handler, the error status.
\<close>

definition download_all_verses :: "BibleCache \<Rightarrow> string list \<Rightarrow> world \<Rightarrow> download" where
  "download_all_verses cache translations_to_download w =
     (let w1 = set_download_status ''downloading'' Starting w;
          total_combinations = 24 * 60 * int (length translations_to_download);
          s0 = \<lparr>downloaded_verses = 0, attempted = [], results = [], dl_world = w1\<rparr>
      in case for_each
                (\<lambda>translation.
                   for_each
                     (\<lambda>chapter.
                        for_each (verse_step cache total_combinations translation chapter) [1..60])
                     [1..24])
                translations_to_download s0 of
           Inr s \<Rightarrow>
             s\<lparr>dl_world := set_download_status ''completed''
                              (Completed (length translations_to_download)) (dl_world s)\<rparr>
         | Inl (e, s) \<Rightarrow>
             s\<lparr>dl_world := set_download_status ''error'' (Failed e) (dl_world s)\<rparr>)"

text \<open>
  The grid as the specification describes it: for each translation, every chapter from 1
  to 24 and every verse from 1 to 60, in that nested order. The book is always the first
  one of the table, Genesis (id 1), which has at least 24 chapters.
\<close>

definition spec_grid :: "string list \<Rightarrow> (string \<times> int \<times> int \<times> int) list" where
  "spec_grid translations =
     [(translation, 1, chapter, verse).
        translation \<leftarrow> translations, chapter \<leftarrow> [1..24], verse \<leftarrow> [1..60]]"

text \<open>Every request ends in an exception that \<open>fetch_verse\<close> does not catch.\<close>

definition w_timeout :: world where
  "w_timeout = \<lparr>files = (\<lambda>p. NoFile), writable = (\<lambda>p. True), net = (\<lambda>u. OtherError), trace = []\<rparr>"

text \<open>A call of \<open>fetch_verse\<close> that returned, rather than raised.\<close>

definition returned :: "exn + ustr option \<Rightarrow> bool" where
  "returned r \<longleftrightarrow> (case r of Inl e \<Rightarrow> False | Inr t \<Rightarrow> True)"

text \<open>
  Every call of \<open>fetch_verse\<close> made so far returned; and: every call but the last one
  returned, and the last one raised \<open>e\<close>.
\<close>

definition all_returned :: "download \<Rightarrow> bool" where
  "all_returned s \<longleftrightarrow>
     length (results s) = length (attempted s) \<and> (\<forall>x\<in>set (results s). returned x)"

definition stopped_at :: "exn \<Rightarrow> download \<Rightarrow> bool" where
  "stopped_at e s \<longleftrightarrow>
     length (results s) = length (attempted s) \<and> results s \<noteq> [] \<and> last (results s) = Inl e \<and>
     (\<forall>x\<in>set (butlast (results s)). returned x)"

text \<open>
  A download in a world without cache files in which every request fails with a
  \<open>URLError\<close>: every call made so far returned.
\<close>

definition offline :: "download \<Rightarrow> bool" where
  "offline s \<longleftrightarrow>
     all_returned s \<and> files (dl_world s) = (\<lambda>p. NoFile) \<and> net (dl_world s) = (\<lambda>u. URLError)"

text \<open>
  Every progress report in the trace of \<open>s\<close> names the total \<open>T\<close>, unless it was in
  the trace of \<open>w0\<close> already.
\<close>

definition totals_ok :: "int \<Rightarrow> world \<Rightarrow> download \<Rightarrow> bool" where
  "totals_ok T w0 s \<longleftrightarrow>
     (\<forall>st tr d t. SetStatus st (Progress tr d t) \<in> set (trace (dl_world s))
        \<longrightarrow> t = T \<or> SetStatus st (Progress tr d t) \<in> set (trace w0))"

subsection \<open>BibleVerse.start\_bulk\_download\<close>

text \<open>
  A \<open>threading.Thread\<close> object: the translations it was created with, and whether it is
  alive. The plugin holds every thread created so far (a thread is referred to by its
  position) and the field \<open>download_thread\<close>, \<open>None\<close> or a reference.
\<close>

record thread =
  thread_args :: "string list"
  alive :: bool

record plugin =
  threads :: "thread list"
  download_thread :: "nat option"

definition is_alive :: "plugin \<Rightarrow> nat \<Rightarrow> bool" where
  "is_alive s t \<longleftrightarrow> t < length (threads s) \<and> alive (threads s ! t)"

definition start_bulk_download :: "string list \<Rightarrow> plugin \<Rightarrow> plugin" where
  "start_bulk_download translations s =
     (if (case download_thread s of None \<Rightarrow> False | Some t \<Rightarrow> is_alive s t)
      then s
      else s\<lparr>threads := threads s @ [\<lparr>thread_args = translations, alive = True\<rparr>],
             download_thread := Some (length (threads s))\<rparr>)"

text \<open>The environment: the run of thread \<open>t\<close> ends.\<close>

definition thread_exit :: "nat \<Rightarrow> plugin \<Rightarrow> plugin" where
  "thread_exit t s =
     (if t < length (threads s)
      then s\<lparr>threads := (threads s)[t := (threads s ! t)\<lparr>alive := False\<rparr>]\<rparr>
      else s)"

text \<open>\<open>__init__\<close> sets \<open>self.download_thread = None\<close>.\<close>

definition init_plugin :: plugin where
  "init_plugin = \<lparr>threads = [], download_thread = None\<rparr>"

text \<open>The states of a plugin whose method is called by one caller at a time.\<close>

inductive reachable :: "plugin \<Rightarrow> bool" where
  reach_init: "reachable init_plugin"
| reach_start: "reachable s \<Longrightarrow> reachable (start_bulk_download translations s)"
| reach_exit: "reachable s \<Longrightarrow> reachable (thread_exit t s)"

text \<open>The invariant: a thread that is alive is the one \<open>download_thread\<close> refers to.\<close>

definition alive_is_current :: "plugin \<Rightarrow> bool" where
  "alive_is_current s \<longleftrightarrow> (\<forall>i. is_alive s i \<longrightarrow> download_thread s = Some i)"

subsection \<open>wrap\_text\<close>

text \<open>
  The font and the drawing context enter \<open>wrap_text\<close> only through the measured width of
  a string, \<open>bbox[2] - bbox[0]\<close> of \<open>draw.textbbox((0, 0), s, font=font)\<close>; it is the
  parameter \<open>width\<close>. \<open>wrap_loop\<close> is the \<open>for\<close> loop over the words with its two
  variables \<open>lines\<close> and \<open>current\<close>, followed by the final append.
\<close>

fun wrap_loop :: "(ustr \<Rightarrow> int) \<Rightarrow> int \<Rightarrow> ustr list \<Rightarrow> ustr list \<Rightarrow> ustr \<Rightarrow> ustr list" where
  "wrap_loop width max_width [] lines current =
     (if current \<noteq> [] then lines @ [current] else lines)"
| "wrap_loop width max_width (word # words) lines current =
     (let test = strip (current @ [SP] @ word)
      in if width test \<le> max_width
         then wrap_loop width max_width words lines test
         else wrap_loop width max_width words
                (if current \<noteq> [] then lines @ [current] else lines) word)"

definition wrap_text :: "ustr \<Rightarrow> (ustr \<Rightarrow> int) \<Rightarrow> int \<Rightarrow> ustr list" where
  "wrap_text text width max_width = wrap_loop width max_width (split text) [] []"

text \<open>\<open>" ".join(lines)\<close>.\<close>

fun join_sp :: "ustr list \<Rightarrow> ustr" where
  "join_sp [] = []"
| "join_sp [x] = x"
| "join_sp (x # y # zs) = x @ [SP] @ join_sp (y # zs)"

text \<open>An example measure: ten pixels for every character.\<close>

definition px10 :: "ustr \<Rightarrow> int" where
  "px10 s = 10 * int (length s)"

subsection \<open>Predicates on cleaned text\<close>

text \<open>
  \<open>tag_in s\<close>: some \<open><\<close> of \<open>s\<close> is followed by a character other than \<open>>\<close> and,
  later, by a \<open>>\<close>; that is, the tag pattern of \<open>fetch_verse\<close> matches somewhere in
  \<open>s\<close>. \<open>ws_run_in s\<close>: two adjacent characters of \<open>s\<close> are both whitespace.
\<close>

fun tag_in :: "ustr \<Rightarrow> bool" where
  "tag_in [] = False"
| "tag_in (c # cs) = ((c = LT \<and> cs \<noteq> [] \<and> hd cs \<noteq> GT \<and> GT \<in> set cs) \<or> tag_in cs)"

fun ws_run_in :: "ustr \<Rightarrow> bool" where
  "ws_run_in (a # b # cs) = ((isspace a \<and> isspace b) \<or> ws_run_in (b # cs))"
| "ws_run_in _ = False"


subsection \<open>Example worlds\<close>

definition c0 :: BibleCache where
  "c0 = \<lparr>cache_dir = ''bible_cache''\<rparr>"

text \<open>No cache file, every request fails with a \<open>URLError\<close>.\<close>

definition w_offline :: world where
  "w_offline = \<lparr>files = (\<lambda>p. NoFile), writable = (\<lambda>p. True), net = (\<lambda>u. URLError), trace = []\<rparr>"

text \<open>The KJV cache file holds Psalm 23:1.\<close>

definition w_cached :: world where
  "w_cached = \<lparr>files = (\<lambda>p. NoFile)(''bible_cache/KJV.json'' :=
                   CacheFile [(''19_23_1'', ustr_of ''The Lord is my shepherd'')]),
     writable = (\<lambda>p. True), net = (\<lambda>u. URLError), trace = []\<rparr>"

text \<open>No cache file, and none can be written.\<close>

definition w_readonly :: world where
  "w_readonly = \<lparr>files = (\<lambda>p. NoFile), writable = (\<lambda>p. False), net = (\<lambda>u. URLError), trace = []\<rparr>"

text \<open>Every request is answered by the same JSON object, whose text carries markup.\<close>

definition w_net :: world where
  "w_net = \<lparr>files = (\<lambda>p. NoFile), writable = (\<lambda>p. True),
     net = (\<lambda>u. Json (JObj [(ustr_of ''pk'', JNum 1),
                              (ustr_of ''text'', JStr (ustr_of '' <i>In</i>  the <b>beginning</b> ''))])),
     trace = []\<rparr>"

section \<open>Properties\<close>

subsection \<open>Chapter and verse from the clock\<close>

lemma valid_time_override: "valid_time now \<Longrightarrow> valid_time (apply_dst_override ov now)"
  by (cases ov) (simp_all add: valid_time_def apply_dst_override_def add_hours_def)

text \<open>
  Claim C1. For every local time that generate\_image observes (after the optional
  daylight-saving override), the chapter is the hour of the day, except that hour 0
  gives chapter 24, and the verse is the minute of the hour, except that minute 0 gives
  verse 1; hence the chapter lies in 1..24 and the verse in 1..59.
\<close>

theorem chapter_verse_from_time:
  assumes "valid_time now0" and "now = apply_dst_override ov now0"
  shows "select_chapter now = (if hour now = 0 then 24 else hour now)
       \<and> select_verse now = (if minute now = 0 then 1 else minute now)
       \<and> 1 \<le> select_chapter now \<and> select_chapter now \<le> 24
       \<and> 1 \<le> select_verse now \<and> select_verse now \<le> 59"
proof -
  have "valid_time now"
    using assms valid_time_override by simp
  then show ?thesis
    by (auto simp: valid_time_def select_chapter_def select_verse_def)
qed

theorem chapter_verse_from_time_witness:
  "valid_time \<lparr>hour = 23, minute = 0, dst = False\<rparr>
   \<and> select_chapter (apply_dst_override AlwaysDst \<lparr>hour = 23, minute = 0, dst = False\<rparr>) = 24
   \<and> select_verse (apply_dst_override AlwaysDst \<lparr>hour = 23, minute = 0, dst = False\<rparr>) = 1"
proof -
  have v: "valid_time \<lparr>hour = 23, minute = 0, dst = False\<rparr>"
    by (simp add: valid_time_def)
  have h: "hour (apply_dst_override AlwaysDst \<lparr>hour = 23, minute = 0, dst = False\<rparr>) = 0"
    by (simp add: apply_dst_override_def add_hours_def)
  have m: "minute (apply_dst_override AlwaysDst \<lparr>hour = 23, minute = 0, dst = False\<rparr>) = 0"
    by (simp add: apply_dst_override_def add_hours_def)
  show ?thesis
    using v chapter_verse_from_time [OF v refl, of AlwaysDst] h m by simp
qed



subsection \<open>The verse cache\<close>

lemma load_cache_dict_of:
  "load_cache c tr w = Inr (Dict d) \<longleftrightarrow> dict_of (files w (get_cache_file c tr)) = Some d"
  by (auto simp: load_cache_def dict_of_def split: file_state.splits)

lemma fetch_verse_unfold:
  "fetch_verse tr b ch v cache w =
     (case cached_text tr b ch v cache w of
        Inl e \<Rightarrow> (Inl e, w)
      | Inr ct \<Rightarrow>
          if ct \<noteq> None \<and> ct \<noteq> Some [] then (Inr ct, w)
          else
            (case api_text (net w (verse_url tr b ch v)) of
               Inr (Some text) \<Rightarrow>
                 (case cache of
                    None \<Rightarrow> (Inr (Some text), w\<lparr>trace := trace w @ [HttpGet (verse_url tr b ch v)]\<rparr>)
                  | Some c \<Rightarrow>
                      (case save_verse_to_cache c tr b ch v text
                              (w\<lparr>trace := trace w @ [HttpGet (verse_url tr b ch v)]\<rparr>) of
                         (Some e, w2) \<Rightarrow> (Inl e, w2)
                       | (None, w2) \<Rightarrow> (Inr (Some text), w2)))
             | Inr None \<Rightarrow> (Inr None, w\<lparr>trace := trace w @ [HttpGet (verse_url tr b ch v)]\<rparr>)
             | Inl e \<Rightarrow> (Inl e, w\<lparr>trace := trace w @ [HttpGet (verse_url tr b ch v)]\<rparr>)))"
  by (auto simp: fetch_verse_def cached_text_def api_text_def Let_def
      split: option.splits response.splits sum.splits bool.splits)

lemma save_trace_irrelevant:
  "fst (save_verse_to_cache c tr b ch v t (w\<lparr>trace := tr'\<rparr>)) = fst (save_verse_to_cache c tr b ch v t w)"
  by (simp add: save_verse_to_cache_def save_cache_def load_cache_def Let_def
      split: file_state.splits sum.splits cache_data.splits)

lemma save_ok_iff:
  assumes "load_cache c tr w = Inr (Dict d)"
  shows "fst (save_verse_to_cache c tr b ch v t w) = None \<longleftrightarrow>
         (\<not> writable w (get_cache_file c tr)
          \<or> (\<forall>(k, x)\<in>set (AList.update (cache_key b ch v) t d). encodable x))"
  using assms by (simp add: save_verse_to_cache_def save_cache_def Let_def)

text \<open>
  Claim C4, as amended. The verse cache is a flat key-value map keyed by the book, chapter
  and verse joined by underscores. Whenever save\_verse\_to\_cache succeeds in writing (the
  cache file reads as a dict, it can be written, and every text of the updated dict can
  be encoded), it returns without an exception, get\_verse\_from\_cache with the same
  translation and triple then returns exactly the text stored, and the dict in the file is
  the old one updated at the key made of the three numbers joined by underscores.
\<close>

theorem cache_round_trip:
  assumes "load_cache c tr w = Inr (Dict d)"
    and "writable w (get_cache_file c tr)"
    and "\<forall>(k, x)\<in>set (AList.update (cache_key b ch v) t d). encodable x"
  shows "fst (save_verse_to_cache c tr b ch v t w) = None
    \<and> get_verse_from_cache c tr b ch v (snd (save_verse_to_cache c tr b ch v t w)) = Inr (Some t)
    \<and> load_cache c tr (snd (save_verse_to_cache c tr b ch v t w))
        = Inr (Dict (AList.update (str_int b @ ''_'' @ str_int ch @ ''_'' @ str_int v) t d))"
  using assms
  by (simp add: get_verse_from_cache_def save_verse_to_cache_def save_cache_def load_cache_def
      cache_key_def Let_def update_conv')

theorem cache_round_trip_witness:
  "load_cache c0 ''KJV'' w_offline = Inr (Dict [])
   \<and> writable w_offline (get_cache_file c0 ''KJV'')
   \<and> fst (save_verse_to_cache c0 ''KJV'' 19 23 1 (ustr_of ''The Lord'') w_offline) = None
   \<and> get_verse_from_cache c0 ''KJV'' 19 23 1
        (snd (save_verse_to_cache c0 ''KJV'' 19 23 1 (ustr_of ''The Lord'') w_offline))
       = Inr (Some (ustr_of ''The Lord''))
   \<and> load_cache c0 ''KJV'' (snd (save_verse_to_cache c0 ''KJV'' 19 23 1 (ustr_of ''The Lord'') w_offline))
       = Inr (Dict [(''19_23_1'', ustr_of ''The Lord'')])"
proof -
  have l: "load_cache c0 ''KJV'' w_offline = Inr (Dict [])"
    by (simp add: load_cache_def w_offline_def)
  have h: "writable w_offline (get_cache_file c0 ''KJV'')"
    by (simp add: w_offline_def)
  have e: "\<forall>(k, x)\<in>set (AList.update (cache_key 19 23 1) (ustr_of ''The Lord'') []). encodable x"
    by (simp add: encodable_def ustr_of_def)
  have k: "str_int 19 @ ''_'' @ str_int 23 @ ''_'' @ str_int 1 = ''19_23_1''"
    by (simp add: str_int_def digits.simps digit_char_def)
  have u: "AList.update ''19_23_1'' (ustr_of ''The Lord'') [] = [(''19_23_1'', ustr_of ''The Lord'')]"
    by simp
  from cache_round_trip [OF l h e] l h show ?thesis
    by (simp only: k u)
qed

text \<open>
  Claim C4 as stated fails: when the cache file cannot be opened for writing,
  \<open>save_cache\<close> swallows the \<open>IOError\<close>, \<open>save_verse_to_cache\<close> returns normally, and
  the text is not there to be read back.
\<close>

theorem cache_round_trip_counterexample:
  "get_verse_from_cache c0 ''KJV'' 19 23 1
     (snd (save_verse_to_cache c0 ''KJV'' 19 23 1 (ustr_of ''The Lord'') w_readonly)) = Inr None
   \<and> fst (save_verse_to_cache c0 ''KJV'' 19 23 1 (ustr_of ''The Lord'') w_readonly) = None"
  by (simp add: get_verse_from_cache_def save_verse_to_cache_def save_cache_def load_cache_def
      w_readonly_def Let_def)

subsection \<open>fetch\_verse reads the cache first\<close>

text \<open>
  Claim C5. fetch\_verse is cache-first: if a cache is supplied and holds a non-empty text
  for the key, fetch\_verse returns that text unchanged and leaves the world as it was; in
  particular it issues no HTTP request and writes no cache file.
\<close>

theorem fetch_verse_cache_first:
  assumes "get_verse_from_cache c tr b ch v w = Inr (Some t)" and "t \<noteq> []"
  shows "fetch_verse tr b ch v (Some c) w = (Inr (Some t), w)
       \<and> trace (snd (fetch_verse tr b ch v (Some c) w)) = trace w
       \<and> files (snd (fetch_verse tr b ch v (Some c) w)) = files w"
  using assms by (simp add: fetch_verse_def)

theorem fetch_verse_cache_first_witness:
  "get_verse_from_cache c0 ''KJV'' 19 23 1 w_cached = Inr (Some (ustr_of ''The Lord is my shepherd''))
   \<and> ustr_of ''The Lord is my shepherd'' \<noteq> []
   \<and> fetch_verse ''KJV'' 19 23 1 (Some c0) w_cached
       = (Inr (Some (ustr_of ''The Lord is my shepherd'')), w_cached)
   \<and> trace (snd (fetch_verse ''KJV'' 19 23 1 (Some c0) w_cached)) = []"
proof -
  have g: "get_verse_from_cache c0 ''KJV'' 19 23 1 w_cached
           = Inr (Some (ustr_of ''The Lord is my shepherd''))"
    by (simp add: get_verse_from_cache_def load_cache_def get_cache_file_def c0_def w_cached_def
        cache_key_def str_int_def digits.simps digit_char_def)
  have n: "ustr_of ''The Lord is my shepherd'' \<noteq> []"
    by (simp add: ustr_of_def)
  have t: "trace w_cached = []"
    by (simp add: w_cached_def)
  from fetch_verse_cache_first [OF g n] g n t show ?thesis
    by simp
qed

subsection \<open>The text fetched from the API is clean\<close>

lemma GT_not_space: "\<not> isspace GT" by (simp add: isspace_def GT_def)
lemma LT_not_space: "\<not> isspace LT" by (simp add: isspace_def LT_def)
lemma SP_space: "isspace SP" by (simp add: isspace_def SP_def)
lemma LT_neq_GT: "LT \<noteq> GT" by (simp add: LT_def GT_def)

lemma tag_in_append: "tag_in xs \<Longrightarrow> tag_in (xs @ ys)"
  by (induction xs) auto

lemma tag_in_suffix: "tag_in ys \<Longrightarrow> tag_in (xs @ ys)"
  by (induction xs) auto

lemma tag_in_iff:
  "tag_in r \<longleftrightarrow> (\<exists>pre body post. r = pre @ [LT] @ body @ [GT] @ post \<and> body \<noteq> [] \<and> GT \<notin> set body)"
proof
  assume "tag_in r"
  then show "\<exists>pre body post. r = pre @ [LT] @ body @ [GT] @ post \<and> body \<noteq> [] \<and> GT \<notin> set body"
  proof (induction r)
    case Nil
    then show ?case by simp
  next
    case (Cons c cs)
    show ?case
    proof (cases "c = LT \<and> cs \<noteq> [] \<and> hd cs \<noteq> GT \<and> GT \<in> set cs")
      case True
      then obtain body post where sp: "cs = body @ GT # post" and nb: "GT \<notin> set body"
        by (meson split_list_first)
      from True sp have "body \<noteq> []" by (cases body) auto
      with True sp nb have "c # cs = [] @ [LT] @ body @ [GT] @ post \<and> body \<noteq> [] \<and> GT \<notin> set body"
        by simp
      then show ?thesis by blast
    next
      case False
      with Cons.prems have "tag_in cs" by auto
      then obtain pre body post where "cs = pre @ [LT] @ body @ [GT] @ post" "body \<noteq> []" "GT \<notin> set body"
        using Cons.IH by blast
      then have "c # cs = (c # pre) @ [LT] @ body @ [GT] @ post \<and> body \<noteq> [] \<and> GT \<notin> set body"
        by simp
      then show ?thesis by blast
    qed
  qed
next
  assume "\<exists>pre body post. r = pre @ [LT] @ body @ [GT] @ post \<and> body \<noteq> [] \<and> GT \<notin> set body"
  then obtain pre body post where r: "r = pre @ [LT] @ body @ [GT] @ post" and b: "body \<noteq> []" "GT \<notin> set body"
    by blast
  from b have "tag_in (LT # body @ GT # post)" by (cases body) auto
  then show "tag_in r" unfolding r using tag_in_suffix [of "LT # body @ GT # post" pre] by simp
qed

lemma ws_run_in_append: "ws_run_in xs \<Longrightarrow> ws_run_in (xs @ ys)"
  by (induction xs rule: ws_run_in.induct) auto

lemma ws_run_in_suffix: "ws_run_in ys \<Longrightarrow> ws_run_in (xs @ ys)"
proof (induction xs)
  case Nil then show ?case by simp
next
  case (Cons x xs)
  then have "ws_run_in (xs @ ys)" by simp
  then show ?case by (cases "xs @ ys") auto
qed

lemma ws_run_in_iff:
  "ws_run_in r \<longleftrightarrow> (\<exists>pre a b post. r = pre @ [a, b] @ post \<and> isspace a \<and> isspace b)"
proof
  assume "ws_run_in r"
  then show "\<exists>pre a b post. r = pre @ [a, b] @ post \<and> isspace a \<and> isspace b"
  proof (induction r rule: ws_run_in.induct)
    case (1 a b cs)
    show ?case
    proof (cases "isspace a \<and> isspace b")
      case True
      then have "a # b # cs = [] @ [a, b] @ cs \<and> isspace a \<and> isspace b" by simp
      then show ?thesis by blast
    next
      case False
      with 1 obtain pre x y post where "b # cs = pre @ [x, y] @ post" "isspace x" "isspace y"
        by auto
      then have "a # b # cs = (a # pre) @ [x, y] @ post \<and> isspace x \<and> isspace y" by simp
      then show ?thesis by blast
    qed
  qed simp_all
next
  assume "\<exists>pre a b post. r = pre @ [a, b] @ post \<and> isspace a \<and> isspace b"
  then obtain pre a b post where r: "r = pre @ [a, b] @ post" and "isspace a" "isspace b" by blast
  then have "ws_run_in (a # b # post)" by simp
  then show "ws_run_in r" unfolding r using ws_run_in_suffix [of "a # b # post" pre] by simp
qed

lemma set_strip_tags: "set (strip_tags s) \<subseteq> set s"
proof (induction s rule: strip_tags.induct)
  case 1 then show ?case by simp
next
  case (2 c cs)
  have "set (tl ys) \<subseteq> set ys" for ys :: ustr
    by (cases ys) auto
  moreover have "set (dropWhile (\<lambda>x. x \<noteq> GT) cs) \<subseteq> set cs"
    by (auto dest: set_dropWhileD)
  ultimately have "set (tl (dropWhile (\<lambda>x. x \<noteq> GT) cs)) \<subseteq> set cs"
    by blast
  with 2 show ?case by auto
qed

lemma hd_strip_tags_GT:
  assumes "cs \<noteq> []" and "hd cs = GT"
  shows "strip_tags cs \<noteq> [] \<and> hd (strip_tags cs) = GT"
proof (cases cs)
  case Nil with assms show ?thesis by simp
next
  case (Cons a as)
  with assms have "a = GT" by simp
  with Cons show ?thesis using LT_neq_GT by simp
qed

lemma no_tag_strip_tags: "\<not> tag_in (strip_tags s)"
proof (induction s rule: strip_tags.induct)
  case 1 then show ?case by simp
next
  case (2 c cs)
  show ?case
  proof (cases "c = LT \<and> takeWhile (\<lambda>x. x \<noteq> GT) cs \<noteq> [] \<and> dropWhile (\<lambda>x. x \<noteq> GT) cs \<noteq> []")
    case True
    with 2 show ?thesis by simp
  next
    case False
    then have eq: "strip_tags (c # cs) = c # strip_tags cs" by auto
    from False 2 have ih: "\<not> tag_in (strip_tags cs)" by blast
    have "\<not> (c = LT \<and> strip_tags cs \<noteq> [] \<and> hd (strip_tags cs) \<noteq> GT \<and> GT \<in> set (strip_tags cs))"
    proof
      assume a: "c = LT \<and> strip_tags cs \<noteq> [] \<and> hd (strip_tags cs) \<noteq> GT \<and> GT \<in> set (strip_tags cs)"
      then have ne: "cs \<noteq> []" by auto
      from a have "GT \<in> set cs" using set_strip_tags by blast
      then have d: "dropWhile (\<lambda>x. x \<noteq> GT) cs \<noteq> []" by (simp add: dropWhile_eq_Nil_conv)
      from a ne have "hd cs \<noteq> GT" using hd_strip_tags_GT by blast
      with ne have "takeWhile (\<lambda>x. x \<noteq> GT) cs \<noteq> []" by (cases cs) auto
      with a d False show False by blast
    qed
    with ih eq show ?thesis by simp
  qed
qed


lemma SP_neq_GT: "SP \<noteq> GT" by (simp add: SP_def GT_def)
lemma SP_neq_LT: "SP \<noteq> LT" by (simp add: SP_def LT_def)

lemma tag_in_dropWhile: "tag_in (dropWhile P s) \<Longrightarrow> tag_in s"
  using tag_in_suffix [of "dropWhile P s" "takeWhile P s"] by simp

lemma ws_run_in_dropWhile: "ws_run_in (dropWhile P s) \<Longrightarrow> ws_run_in s"
  using ws_run_in_suffix [of "dropWhile P s" "takeWhile P s"] by simp

lemma GT_in_collapse_ws: "GT \<in> set (collapse_ws s) \<Longrightarrow> GT \<in> set s"
proof (induction s rule: collapse_ws.induct)
  case 1 then show ?case by simp
next
  case (2 c cs)
  show ?case
  proof (cases "isspace c")
    case True
    with "2.prems" have "GT \<in> set (collapse_ws (dropWhile isspace cs))"
      using SP_neq_GT by auto
    with True "2.IH"(1) have "GT \<in> set (dropWhile isspace cs)" by blast
    then show ?thesis by (auto dest: set_dropWhileD)
  next
    case False
    with 2 show ?thesis by auto
  qed
qed

lemma collapse_ws_Nil_iff: "collapse_ws s = [] \<longleftrightarrow> s = []"
  by (cases s) auto

lemma hd_collapse_ws_nonspace: "s \<noteq> [] \<Longrightarrow> \<not> isspace (hd s) \<Longrightarrow> hd (collapse_ws s) = hd s"
  by (cases s) auto

lemma hd_collapse_ws_space: "s \<noteq> [] \<Longrightarrow> isspace (hd s) \<Longrightarrow> hd (collapse_ws s) = SP"
  by (cases s) auto

lemma tag_in_collapse_ws: "tag_in (collapse_ws s) \<Longrightarrow> tag_in s"
proof (induction s rule: collapse_ws.induct)
  case 1 then show ?case by simp
next
  case (2 c cs)
  show ?case
  proof (cases "isspace c")
    case True
    with "2.prems" have "tag_in (collapse_ws (dropWhile isspace cs))"
      using SP_neq_LT by auto
    with True "2.IH"(1) have "tag_in (dropWhile isspace cs)" by blast
    then have "tag_in cs" by (rule tag_in_dropWhile)
    then show ?thesis by simp
  next
    case False
    then have eq: "collapse_ws (c # cs) = c # collapse_ws cs" by simp
    show ?thesis
    proof (cases "tag_in (collapse_ws cs)")
      case True
      with False "2.IH"(2) show ?thesis by simp
    next
      case nt: False
      with "2.prems" eq have h: "c = LT" "collapse_ws cs \<noteq> []" "hd (collapse_ws cs) \<noteq> GT"
        "GT \<in> set (collapse_ws cs)" by auto
      from h(2) have ne: "cs \<noteq> []" by (simp add: collapse_ws_Nil_iff)
      have "hd cs \<noteq> GT"
      proof
        assume g: "hd cs = GT"
        then have "\<not> isspace (hd cs)" using GT_not_space by simp
        with ne have "hd (collapse_ws cs) = hd cs" by (rule hd_collapse_ws_nonspace)
        with g h(3) show False by simp
      qed
      moreover from h(4) have "GT \<in> set cs" by (rule GT_in_collapse_ws)
      ultimately show ?thesis using h(1) ne by simp
    qed
  qed
qed

lemma no_ws_run_collapse_ws: "\<not> ws_run_in (collapse_ws s)"
proof (induction s rule: collapse_ws.induct)
  case 1 then show ?case by simp
next
  case (2 c cs)
  show ?case
  proof (cases "isspace c")
    case True
    let ?r = "dropWhile isspace cs"
    from True "2.IH"(1) have ih: "\<not> ws_run_in (collapse_ws ?r)" by blast
    show ?thesis
    proof (cases ?r)
      case Nil
      with True show ?thesis by (simp del: dropWhile_eq_Nil_conv)
    next
      case (Cons d ds)
      then have "\<not> isspace d" using hd_dropWhile [of isspace cs] by auto
      with Cons have "collapse_ws ?r = d # collapse_ws ds" by simp
      with ih True \<open>\<not> isspace d\<close> show ?thesis by simp
    qed
  next
    case False
    with "2.IH"(2) have ih: "\<not> ws_run_in (collapse_ws cs)" by blast
    from False have eq: "collapse_ws (c # cs) = c # collapse_ws cs" by simp
    show ?thesis unfolding eq using ih False by (cases "collapse_ws cs") auto
  qed
qed

lemma rev_dropWhile_rev: "xs = rev (dropWhile P (rev xs)) @ rev (takeWhile P (rev xs))"
proof -
  have "rev xs = takeWhile P (rev xs) @ dropWhile P (rev xs)" by simp
  then have "rev (rev xs) = rev (takeWhile P (rev xs) @ dropWhile P (rev xs))"
    by (rule arg_cong)
  then show ?thesis by (simp only: rev_rev_ident rev_append)
qed

lemma strip_suffix: "dropWhile isspace s = strip s @ rev (takeWhile isspace (rev (dropWhile isspace s)))"
  unfolding strip_def by (rule rev_dropWhile_rev)

lemma strip_decomp: "\<exists>a b. s = a @ strip s @ b"
proof -
  have "s = takeWhile isspace s @ dropWhile isspace s" by simp
  then have "s = takeWhile isspace s @ strip s @ rev (takeWhile isspace (rev (dropWhile isspace s)))"
    using strip_suffix [of s] by simp
  then show ?thesis by blast
qed

lemma tag_in_strip: "tag_in (strip s) \<Longrightarrow> tag_in s"
proof -
  assume t: "tag_in (strip s)"
  obtain a b where s: "s = a @ strip s @ b" using strip_decomp by blast
  from t have "tag_in (strip s @ b)" by (rule tag_in_append)
  then have "tag_in (a @ strip s @ b)" by (rule tag_in_suffix)
  with s show ?thesis by simp
qed

lemma ws_run_in_strip: "ws_run_in (strip s) \<Longrightarrow> ws_run_in s"
proof -
  assume t: "ws_run_in (strip s)"
  obtain a b where s: "s = a @ strip s @ b" using strip_decomp by blast
  from t have "ws_run_in (strip s @ b)" by (rule ws_run_in_append)
  then have "ws_run_in (a @ strip s @ b)" by (rule ws_run_in_suffix)
  with s show ?thesis by simp
qed

lemma strip_ends: "strip s = [] \<or> (\<not> isspace (hd (strip s)) \<and> \<not> isspace (last (strip s)))"
proof (cases "strip s = []")
  case True then show ?thesis by simp
next
  case False
  let ?m = "dropWhile isspace s"
  let ?d = "dropWhile isspace (rev ?m)"
  from False have dne: "?d \<noteq> []" by (simp add: strip_def)
  then have l: "\<not> isspace (hd ?d)" using hd_dropWhile [of isspace "rev ?m"] by simp
  from dne have "last (strip s) = hd ?d" by (simp add: strip_def last_rev)
  with l have last_ok: "\<not> isspace (last (strip s))" by simp
  have mne: "?m \<noteq> []"
  proof
    assume "?m = []"
    then have "?d = []" by (simp only: rev.simps dropWhile.simps)
    with dne show False by simp
  qed
  then have hm: "\<not> isspace (hd ?m)" using hd_dropWhile [of isspace s] by simp
  obtain b where "?m = strip s @ b" using strip_suffix [of s] by blast
  with False have "hd ?m = hd (strip s)" by (metis hd_append2)
  with hm last_ok show ?thesis by simp
qed

lemma api_text_clean: "api_text r = Inr (Some x) \<Longrightarrow> \<exists>t. x = strip (collapse_ws (strip_tags t))"
  by (auto simp: api_text_def split: response.splits sum.splits bool.splits)

lemma fetch_verse_miss_text:
  assumes miss: "cache = None \<or> (\<exists>c. cache = Some c \<and> get_verse_from_cache c tr b ch v w \<in> {Inr None, Inr (Some [])})"
    and ret: "fst (fetch_verse tr b ch v cache w) = Inr (Some r)"
  shows "\<exists>t. r = strip (collapse_ws (strip_tags t))"
proof -
  from miss have m: "cached_text tr b ch v cache w = Inr None \<or> cached_text tr b ch v cache w = Inr (Some [])"
    by (auto simp: cached_text_def)
  from ret m have "api_text (net w (verse_url tr b ch v)) = Inr (Some r)"
    by (auto simp: fetch_verse_unfold split: sum.splits option.splits prod.splits if_splits)
  then show ?thesis by (rule api_text_clean)
qed

lemma api_text_string:
  assumes "map_of (rev kvs) (ustr_of ''text'') = Some (JStr s)"
  shows "api_text (Json (JObj kvs)) = Inr (Some (strip (collapse_ws (strip_tags (strip s)))))"
proof -
  from assms have "(ustr_of ''text'', JStr s) \<in> set (rev kvs)" by (rule map_of_SomeD)
  then have "ustr_of ''text'' \<in> fst ` set kvs" by force
  then have h: "has_text (JObj kvs) = Inr True" by (simp add: has_text_def)
  from assms have t: "text_field (JObj kvs) = Inr (strip s)" by (simp add: text_field_def)
  show ?thesis by (simp add: api_text_def h t)
qed

lemma fetch_verse_miss_returns:
  assumes miss: "cache = None \<or> (\<exists>c. cache = Some c \<and> get_verse_from_cache c tr b ch v w \<in> {Inr None, Inr (Some [])})"
    and resp: "net w (verse_url tr b ch v) = Json (JObj kvs)"
    and field: "map_of (rev kvs) (ustr_of ''text'') = Some (JStr s)"
  shows "(\<exists>r. fst (fetch_verse tr b ch v cache w) = Inr (Some r)) \<longleftrightarrow>
         (cache = None \<or>
          (\<exists>c d. cache = Some c \<and> load_cache c tr w = Inr (Dict d) \<and>
             (\<not> writable w (get_cache_file c tr) \<or>
              (\<forall>(k, x)\<in>set (AList.update (cache_key b ch v)
                                 (strip (collapse_ws (strip_tags (strip s)))) d). encodable x))))"
proof (cases cache)
  case None
  then show ?thesis
    by (simp add: fetch_verse_unfold cached_text_def resp api_text_string [OF field])
next
  case (Some c)
  let ?t = "strip (collapse_ws (strip_tags (strip s)))"
  let ?w1 = "w\<lparr>trace := trace w @ [HttpGet (verse_url tr b ch v)]\<rparr>"
  from miss Some have g: "get_verse_from_cache c tr b ch v w \<in> {Inr None, Inr (Some [])}" by simp
  then obtain d where l: "load_cache c tr w = Inr (Dict d)"
    by (auto simp: get_verse_from_cache_def split: sum.splits cache_data.splits)
  from g Some have m: "cached_text tr b ch v cache w = Inr None \<or> cached_text tr b ch v cache w = Inr (Some [])"
    by (auto simp: cached_text_def)
  have "(\<exists>r. fst (fetch_verse tr b ch v cache w) = Inr (Some r))
        \<longleftrightarrow> fst (save_verse_to_cache c tr b ch v ?t ?w1) = None"
    using m Some
    by (cases "save_verse_to_cache c tr b ch v ?t ?w1")
       (auto simp: fetch_verse_unfold resp api_text_string [OF field] split: option.splits)
  also have "\<dots> \<longleftrightarrow> fst (save_verse_to_cache c tr b ch v ?t w) = None"
    by (simp only: save_trace_irrelevant)
  also have "\<dots> \<longleftrightarrow> (\<not> writable w (get_cache_file c tr)
          \<or> (\<forall>(k, x)\<in>set (AList.update (cache_key b ch v) ?t d). encodable x))"
    by (rule save_ok_iff [OF l])
  finally show ?thesis using Some l by simp
qed

text \<open>
  Claim C6, as amended. When fetch\_verse consults the API (no usable cached text) and the
  response body is a JSON object with a text field, then a string value of that field
  makes fetch\_verse return a string exactly when the save into the cache cannot raise
  (there is no cache, or the cache file cannot be written, or every text of the updated
  dict can be encoded), and every string it returns contains no substring made of \<open><\<close>,
  one or more characters other than \<open>>\<close>, and \<open>>\<close> (what the regex removes), contains
  no two adjacent whitespace characters, and neither starts nor ends with whitespace.
\<close>

theorem fetched_text_is_clean:
  assumes miss: "cache = None \<or> (\<exists>c. cache = Some c \<and> get_verse_from_cache c tr b ch v w \<in> {Inr None, Inr (Some [])})"
    and resp: "net w (verse_url tr b ch v) = Json (JObj kvs)"
    and field: "ustr_of ''text'' \<in> fst ` set kvs"
  shows "(\<forall>s. map_of (rev kvs) (ustr_of ''text'') = Some (JStr s) \<longrightarrow>
            ((\<exists>r. fst (fetch_verse tr b ch v cache w) = Inr (Some r)) \<longleftrightarrow>
             (cache = None \<or>
              (\<exists>c d. cache = Some c \<and> load_cache c tr w = Inr (Dict d) \<and>
                 (\<not> writable w (get_cache_file c tr) \<or>
                  (\<forall>(k, x)\<in>set (AList.update (cache_key b ch v)
                                     (strip (collapse_ws (strip_tags (strip s)))) d).
                      encodable x))))))
       \<and> (\<forall>r. fst (fetch_verse tr b ch v cache w) = Inr (Some r) \<longrightarrow>
            \<not> (\<exists>pre body post. r = pre @ [LT] @ body @ [GT] @ post \<and> body \<noteq> [] \<and> GT \<notin> set body)
          \<and> \<not> (\<exists>pre x y post. r = pre @ [x, y] @ post \<and> isspace x \<and> isspace y)
          \<and> (r \<noteq> [] \<longrightarrow> \<not> isspace (hd r) \<and> \<not> isspace (last r)))"
proof (rule conjI)
  show "\<forall>s. map_of (rev kvs) (ustr_of ''text'') = Some (JStr s) \<longrightarrow>
            ((\<exists>r. fst (fetch_verse tr b ch v cache w) = Inr (Some r)) \<longleftrightarrow>
             (cache = None \<or>
              (\<exists>c d. cache = Some c \<and> load_cache c tr w = Inr (Dict d) \<and>
                 (\<not> writable w (get_cache_file c tr) \<or>
                  (\<forall>(k, x)\<in>set (AList.update (cache_key b ch v)
                                     (strip (collapse_ws (strip_tags (strip s)))) d).
                      encodable x)))))"
    using fetch_verse_miss_returns [OF miss resp] by blast
next
  show "\<forall>r. fst (fetch_verse tr b ch v cache w) = Inr (Some r) \<longrightarrow>
            \<not> (\<exists>pre body post. r = pre @ [LT] @ body @ [GT] @ post \<and> body \<noteq> [] \<and> GT \<notin> set body)
          \<and> \<not> (\<exists>pre x y post. r = pre @ [x, y] @ post \<and> isspace x \<and> isspace y)
          \<and> (r \<noteq> [] \<longrightarrow> \<not> isspace (hd r) \<and> \<not> isspace (last r))"
  proof (intro allI impI)
    fix r assume ret: "fst (fetch_verse tr b ch v cache w) = Inr (Some r)"
    with miss obtain t where r: "r = strip (collapse_ws (strip_tags t))"
      using fetch_verse_miss_text by blast
    have nt: "\<not> tag_in r"
      unfolding r using tag_in_strip tag_in_collapse_ws no_tag_strip_tags by blast
    have nw: "\<not> ws_run_in r"
      unfolding r using ws_run_in_strip no_ws_run_collapse_ws by blast
    have ends: "r \<noteq> [] \<longrightarrow> \<not> isspace (hd r) \<and> \<not> isspace (last r)"
      using strip_ends [of "collapse_ws (strip_tags t)"] r by blast
    from nt have a: "\<not> (\<exists>pre body post. r = pre @ [LT] @ body @ [GT] @ post \<and> body \<noteq> [] \<and> GT \<notin> set body)"
      unfolding tag_in_iff .
    from nw have b: "\<not> (\<exists>pre x y post. r = pre @ [x, y] @ post \<and> isspace x \<and> isspace y)"
      unfolding ws_run_in_iff .
    from a b ends
    show "\<not> (\<exists>pre body post. r = pre @ [LT] @ body @ [GT] @ post \<and> body \<noteq> [] \<and> GT \<notin> set body)
          \<and> \<not> (\<exists>pre x y post. r = pre @ [x, y] @ post \<and> isspace x \<and> isspace y)
          \<and> (r \<noteq> [] \<longrightarrow> \<not> isspace (hd r) \<and> \<not> isspace (last r))"
      by (intro conjI)
  qed
qed

theorem fetched_text_is_clean_witness:
  "net w_net (verse_url ''KJV'' 1 1 1)
      = Json (JObj [(ustr_of ''pk'', JNum 1),
                    (ustr_of ''text'', JStr (ustr_of '' <i>In</i>  the <b>beginning</b> ''))])
   \<and> fst (fetch_verse ''KJV'' 1 1 1 None w_net) = Inr (Some (ustr_of ''In the beginning''))
   \<and> \<not> (\<exists>pre body post. ustr_of ''In the beginning'' = pre @ [LT] @ body @ [GT] @ post
          \<and> body \<noteq> [] \<and> GT \<notin> set body)
   \<and> \<not> (\<exists>pre x y post. ustr_of ''In the beginning'' = pre @ [x, y] @ post \<and> isspace x \<and> isspace y)
   \<and> \<not> isspace (hd (ustr_of ''In the beginning''))
   \<and> \<not> isspace (last (ustr_of ''In the beginning''))"
proof -
  let ?kvs = "[(ustr_of ''pk'', JNum 1),
               (ustr_of ''text'', JStr (ustr_of '' <i>In</i>  the <b>beginning</b> ''))]"
  have resp: "net w_net (verse_url ''KJV'' 1 1 1) = Json (JObj ?kvs)"
    by (simp add: w_net_def)
  have field: "ustr_of ''text'' \<in> fst ` set ?kvs" by simp
  have miss: "(None :: BibleCache option) = None
       \<or> (\<exists>c. None = Some c \<and> get_verse_from_cache c ''KJV'' 1 1 1 w_net \<in> {Inr None, Inr (Some [])})"
    by simp
  have ret: "fst (fetch_verse ''KJV'' 1 1 1 None w_net) = Inr (Some (ustr_of ''In the beginning''))"
    by (simp add: fetch_verse_def w_net_def has_text_def text_field_def ustr_of_def Let_def
        strip_def isspace_def LT_def GT_def SP_def)
  have ne: "ustr_of ''In the beginning'' \<noteq> []" by (simp add: ustr_of_def)
  from fetched_text_is_clean [OF miss resp field] ret ne resp show ?thesis by blast
qed

text \<open>
  Claim C6 as stated fails: the regex asks for at least one character between \<open><\<close> and
  \<open>>\<close>, so a \<open><\<close> directly followed by \<open>>\<close> is kept, and the returned string then
  contains a substring that starts with \<open><\<close> and ends with \<open>>\<close>.
\<close>

theorem fetched_text_counterexample:
  "fst (fetch_verse ''KJV'' 1 1 1 None w_neq) = Inr (Some (ustr_of ''x <> y''))
   \<and> ustr_of ''x <> y'' = ustr_of ''x '' @ [LT] @ [] @ [GT] @ ustr_of '' y''"
  by (simp add: fetch_verse_def w_neq_def has_text_def text_field_def ustr_of_def Let_def
      strip_def isspace_def LT_def GT_def SP_def)

subsection \<open>wrap\_text: line widths\<close>

lemma wrap_loop_width:
  assumes "\<forall>l\<in>set lines. width l \<le> mw \<or> l \<in> W"
    and "current = [] \<or> width current \<le> mw \<or> current \<in> W"
    and "set words \<subseteq> W"
  shows "\<forall>l\<in>set (wrap_loop width mw words lines current). width l \<le> mw \<or> l \<in> W"
  using assms
proof (induction words arbitrary: lines current)
  case Nil
  then show ?case by auto
next
  case (Cons word words)
  let ?test = "strip (current @ [SP] @ word)"
  show ?case
  proof (cases "width ?test \<le> mw")
    case True
    have "\<forall>l\<in>set (wrap_loop width mw words lines ?test). width l \<le> mw \<or> l \<in> W"
      using Cons.prems True by (intro Cons.IH) auto
    with True show ?thesis by (simp add: Let_def)
  next
    case False
    let ?lines = "if current \<noteq> [] then lines @ [current] else lines"
    have "\<forall>l\<in>set (wrap_loop width mw words ?lines word). width l \<le> mw \<or> l \<in> W"
      using Cons.prems by (intro Cons.IH) auto
    with False show ?thesis by (simp add: Let_def)
  qed
qed

text \<open>
  Claim C8, as amended. Every line returned by wrap\_text either has measured width at
  most the maximum width or is a single word of the text (which is then wider than the
  maximum on its own: the routine never breaks a word).
\<close>

theorem wrap_text_width:
  "\<forall>line\<in>set (wrap_text text width max_width). width line \<le> max_width \<or> line \<in> set (split text)"
  unfolding wrap_text_def by (rule wrap_loop_width) simp_all

theorem wrap_text_width_witness:
  "ustr_of ''In the'' \<in> set (wrap_text (ustr_of ''In the beginning'') px10 100)
   \<and> (px10 (ustr_of ''In the'') \<le> 100
      \<or> ustr_of ''In the'' \<in> set (split (ustr_of ''In the beginning'')))"
proof -
  have m: "ustr_of ''In the'' \<in> set (wrap_text (ustr_of ''In the beginning'') px10 100)"
    by (simp add: wrap_text_def split_def ustr_of_def isspace_def strip_def px10_def SP_def Let_def)
  from wrap_text_width [of "ustr_of ''In the beginning''" px10 100] m show ?thesis
    by blast
qed

text \<open>
  Claim C8 as stated fails: a word that is wider than the maximum width becomes a line of
  its own. With ten pixels per character and a maximum width of 20, the ten-letter word
  below is returned as one line of width 100.
\<close>

theorem wrap_text_width_counterexample:
  "wrap_text (ustr_of ''Hallelujah'') px10 20 = [ustr_of ''Hallelujah'']
   \<and> \<not> px10 (ustr_of ''Hallelujah'') \<le> 20"
  by (simp add: wrap_text_def split_def ustr_of_def isspace_def strip_def px10_def SP_def Let_def)

subsection \<open>wrap\_text: no word is lost\<close>

lemma split_go_space:
  "isspace c \<Longrightarrow> split_go w (a @ c # b) = split_go w a @ split_go [] b"
  by (induction a arbitrary: w) auto

lemma split_go_trailing:
  "\<forall>c\<in>set t. isspace c \<Longrightarrow> split_go w (s @ t) = split_go w s"
proof (induction s arbitrary: w)
  case Nil
  then show ?case by (induction t arbitrary: w) auto
next
  case (Cons a s)
  then show ?case by auto
qed

lemma split_go_leading: "split_go [] (dropWhile isspace s) = split_go [] s"
  by (induction s) auto

lemma split_strip: "split (strip s) = split s"
proof -
  let ?t = "rev (takeWhile isspace (rev (dropWhile isspace s)))"
  have "\<forall>c\<in>set ?t. isspace c" by (auto dest: set_takeWhileD)
  then have "split_go [] (strip s @ ?t) = split_go [] (strip s)" by (rule split_go_trailing)
  then have "split_go [] (dropWhile isspace s) = split_go [] (strip s)"
    using strip_suffix [of s] by simp
  then show ?thesis by (simp add: split_def split_go_leading)
qed

lemma split_go_words:
  "\<forall>c\<in>set w. \<not> isspace c \<Longrightarrow> \<forall>x\<in>set (split_go w s). x \<noteq> [] \<and> (\<forall>c\<in>set x. \<not> isspace c)"
proof (induction s arbitrary: w)
  case Nil
  then show ?case by simp
next
  case (Cons a s)
  show ?case
  proof (cases "isspace a")
    case True
    have "\<forall>x\<in>set (split_go [] s). x \<noteq> [] \<and> (\<forall>c\<in>set x. \<not> isspace c)"
      by (rule Cons.IH) simp
    with True Cons.prems show ?thesis by simp
  next
    case False
    have "\<forall>x\<in>set (split_go (w @ [a]) s). x \<noteq> [] \<and> (\<forall>c\<in>set x. \<not> isspace c)"
      using Cons.prems False by (intro Cons.IH) auto
    with False show ?thesis by simp
  qed
qed

lemma split_words: "\<forall>x\<in>set (split s). x \<noteq> [] \<and> (\<forall>c\<in>set x. \<not> isspace c)"
  unfolding split_def by (rule split_go_words) simp

lemma split_go_word:
  "\<forall>c\<in>set x. \<not> isspace c \<Longrightarrow> split_go w x = (if w @ x = [] then [] else [w @ x])"
  by (induction x arbitrary: w) auto

lemma split_word: "x \<noteq> [] \<Longrightarrow> \<forall>c\<in>set x. \<not> isspace c \<Longrightarrow> split x = [x]"
  by (simp add: split_def split_go_word)

lemma split_Nil: "split [] = []" by (simp add: split_def)

lemma split_append_SP: "split (a @ [SP] @ b) = split a @ split b"
  using split_go_space [of SP "[]" a b] SP_space by (simp add: split_def)

lemma split_join_sp: "split (join_sp ls) = concat (map split ls)"
  by (induction ls rule: join_sp.induct) (simp_all add: split_Nil split_append_SP del: append.simps)

lemma wrap_loop_words:
  assumes "\<forall>x\<in>set words. x \<noteq> [] \<and> (\<forall>c\<in>set x. \<not> isspace c)"
  shows "concat (map split (wrap_loop width mw words lines current))
         = concat (map split lines) @ split current @ words"
  using assms
proof (induction words arbitrary: lines current)
  case Nil
  then show ?case by (simp add: split_Nil)
next
  case (Cons word words)
  let ?test = "strip (current @ [SP] @ word)"
  from Cons.prems have w: "split word = [word]" by (simp add: split_word)
  have t: "split ?test = split current @ [word]"
    by (simp only: split_strip split_append_SP w)
  from Cons.prems have rest: "\<forall>x\<in>set words. x \<noteq> [] \<and> (\<forall>c\<in>set x. \<not> isspace c)" by simp
  show ?case
  proof (cases "width ?test \<le> mw")
    case True
    then have "wrap_loop width mw (word # words) lines current = wrap_loop width mw words lines ?test"
      by (simp add: Let_def)
    then show ?thesis using Cons.IH [OF rest, of lines ?test] t by simp
  next
    case False
    let ?lines = "if current \<noteq> [] then lines @ [current] else lines"
    from False have "wrap_loop width mw (word # words) lines current = wrap_loop width mw words ?lines word"
      by (simp add: Let_def)
    moreover have "concat (map split ?lines) = concat (map split lines) @ split current"
      by (simp add: split_Nil)
    ultimately show ?thesis using Cons.IH [OF rest, of ?lines word] w by simp
  qed
qed

text \<open>
  Claim C10. wrap\_text loses no word and reorders none: joining the returned lines with
  single spaces and splitting the result on whitespace gives exactly the whitespace-split
  word list of the input text, in the same order.
\<close>

theorem wrap_text_keeps_words:
  "split (join_sp (wrap_text text width max_width)) = split text"
proof -
  have "concat (map split (wrap_loop width max_width (split text) [] [])) = split text"
    using wrap_loop_words [of "split text" width max_width "[]" "[]"] split_words [of "text"]
    by (simp add: split_Nil)
  then show ?thesis by (simp add: split_join_sp wrap_text_def)
qed

theorem wrap_text_keeps_words_witness:
  "split (join_sp (wrap_text (ustr_of ''In the  beginning'') px10 60))
     = [ustr_of ''In'', ustr_of ''the'', ustr_of ''beginning'']"
proof -
  have "split (ustr_of ''In the  beginning'') = [ustr_of ''In'', ustr_of ''the'', ustr_of ''beginning'']"
    by (simp add: split_def ustr_of_def isspace_def)
  with wrap_text_keeps_words [of "ustr_of ''In the  beginning''" px10 60] show ?thesis
    by simp
qed

subsection \<open>The fallback of pick\_book\_and\_fetch\<close>

lemma update_member:
  "(k', x) \<in> set (AList.update k t d) \<Longrightarrow> (k', x) = (k, t) \<or> (k', x) \<in> set d"
  by (induction d) (auto split: if_splits)

lemma member_update:
  "(k', x) \<in> set d \<Longrightarrow> (k', x) \<in> set (AList.update k t d) \<or> (k' = k \<and> map_of d k = Some x)"
  by (induction d) (auto split: if_splits)

lemma cache_sim_refl: "cache_sim w w"
  by (simp add: cache_sim_def)

lemma cache_sim_trace: "cache_sim w0 w \<Longrightarrow> cache_sim w0 (w\<lparr>trace := t\<rparr>)"
  by (simp add: cache_sim_def)

lemma encodable_Nil: "encodable []"
  by (simp add: encodable_def)

lemma cache_sim_miss:
  assumes "cache_sim w0 w" and "miss tr b ch v cache w0"
  shows "miss tr b ch v cache w"
proof (cases cache)
  case None
  then show ?thesis by (simp add: miss_def cached_text_def)
next
  case (Some c)
  let ?p = "get_cache_file c tr"
  from assms(2) Some obtain d0 where d0: "dict_of (files w0 ?p) = Some d0"
    and m0: "map_of d0 (cache_key b ch v) = None \<or> map_of d0 (cache_key b ch v) = Some []"
    by (auto simp: miss_def cached_text_def get_verse_from_cache_def load_cache_def dict_of_def
        split: file_state.splits)
  from assms(1) have "files w ?p = files w0 ?p \<or>
          (\<exists>d d0. files w ?p = CacheFile d \<and> dict_of (files w0 ?p) = Some d0 \<and>
             (\<forall>k. map_of d k = map_of d0 k \<or> map_of d k = Some []) \<and>
             (\<forall>(k, x)\<in>set d. x = [] \<or> (k, x) \<in> set d0))"
    by (simp add: cache_sim_def)
  then show ?thesis
  proof
    assume "files w ?p = files w0 ?p"
    with assms(2) Some show ?thesis
      by (simp add: miss_def cached_text_def get_verse_from_cache_def load_cache_def)
  next
    assume "\<exists>d d0. files w ?p = CacheFile d \<and> dict_of (files w0 ?p) = Some d0 \<and>
             (\<forall>k. map_of d k = map_of d0 k \<or> map_of d k = Some []) \<and>
             (\<forall>(k, x)\<in>set d. x = [] \<or> (k, x) \<in> set d0)"
    with d0 obtain d where d: "files w ?p = CacheFile d"
      and rel: "\<forall>k. map_of d k = map_of d0 k \<or> map_of d k = Some []" by auto
    from rel m0 have "map_of d (cache_key b ch v) = None \<or> map_of d (cache_key b ch v) = Some []"
      by metis
    with d Some show ?thesis
      by (simp add: miss_def cached_text_def get_verse_from_cache_def load_cache_def)
  qed
qed


lemma cache_sim_dict:
  assumes "cache_sim w0 w" and "dict_of (files w0 p) = Some d0"
  shows "\<exists>d. dict_of (files w p) = Some d \<and>
             (\<forall>k. map_of d k = map_of d0 k \<or> map_of d k = Some []) \<and>
             (\<forall>(k, x)\<in>set d. x = [] \<or> (k, x) \<in> set d0)"
proof -
  from assms(1) have "files w p = files w0 p \<or>
          (\<exists>d d0. files w p = CacheFile d \<and> dict_of (files w0 p) = Some d0 \<and>
             (\<forall>k. map_of d k = map_of d0 k \<or> map_of d k = Some []) \<and>
             (\<forall>(k, x)\<in>set d. x = [] \<or> (k, x) \<in> set d0))"
    by (simp add: cache_sim_def)
  then show ?thesis
  proof
    assume "files w p = files w0 p"
    with assms(2) have "dict_of (files w p) = Some d0" by simp
    then show ?thesis by auto
  next
    assume "\<exists>d d0. files w p = CacheFile d \<and> dict_of (files w0 p) = Some d0 \<and>
             (\<forall>k. map_of d k = map_of d0 k \<or> map_of d k = Some []) \<and>
             (\<forall>(k, x)\<in>set d. x = [] \<or> (k, x) \<in> set d0)"
    with assms(2) obtain d where "files w p = CacheFile d"
      "\<forall>k. map_of d k = map_of d0 k \<or> map_of d k = Some []"
      "\<forall>(k, x)\<in>set d. x = [] \<or> (k, x) \<in> set d0" by auto
    then show ?thesis by (auto simp: dict_of_def)
  qed
qed

lemma save_verse_dict:
  assumes "dict_of (files w (get_cache_file c tr)) = Some d"
  shows "save_verse_to_cache c tr b ch v t w = save_cache c tr (AList.update (cache_key b ch v) t d) w"
  using assms by (simp add: save_verse_to_cache_def load_cache_dict_of [symmetric])

lemma save_sim:
  assumes sim: "cache_sim w0 w"
    and d0: "dict_of (files w0 (get_cache_file c tr)) = Some d0"
    and m0: "map_of d0 (cache_key b ch v) = None \<or> map_of d0 (cache_key b ch v) = Some []"
    and ok0: "fst (save_verse_to_cache c tr b ch v [] w0) = None"
  shows "fst (save_verse_to_cache c tr b ch v [] w) = None
       \<and> cache_sim w0 (snd (save_verse_to_cache c tr b ch v [] w))"
proof -
  let ?p = "get_cache_file c tr"
  let ?key = "cache_key b ch v"
  obtain d where d: "dict_of (files w ?p) = Some d"
    and rel1: "\<forall>k. map_of d k = map_of d0 k \<or> map_of d k = Some []"
    and rel2: "\<forall>(k, x)\<in>set d. x = [] \<or> (k, x) \<in> set d0"
    using cache_sim_dict [OF sim d0] by blast
  from sim have wr: "writable w = writable w0" and nn: "net w = net w0"
    by (simp_all add: cache_sim_def)
  have s: "save_verse_to_cache c tr b ch v [] w = save_cache c tr (AList.update ?key [] d) w"
    by (rule save_verse_dict [OF d])
  show ?thesis
  proof (cases "writable w ?p")
    case False
    then have "save_cache c tr (AList.update ?key [] d) w = (None, w\<lparr>trace := trace w @ [WriteFile ?p]\<rparr>)"
      by (simp add: save_cache_def Let_def)
    with s sim show ?thesis by (simp add: cache_sim_trace)
  next
    case True
    with wr have w0wr: "writable w0 ?p" by simp
    have s0: "save_verse_to_cache c tr b ch v [] w0 = save_cache c tr (AList.update ?key [] d0) w0"
      by (rule save_verse_dict [OF d0])
    from ok0 s0 w0wr have enc0: "\<forall>(k, x)\<in>set (AList.update ?key [] d0). encodable x"
      by (auto simp: save_cache_def Let_def split: if_splits)
    have enc: "\<forall>(k, x)\<in>set (AList.update ?key [] d). encodable x"
    proof (clarify)
      fix k x assume "(k, x) \<in> set (AList.update ?key [] d)"
      then have "(k, x) = (?key, []) \<or> (k, x) \<in> set d" by (rule update_member)
      then show "encodable x"
      proof
        assume "(k, x) = (?key, [])"
        then show ?thesis by (simp add: encodable_Nil)
      next
        assume "(k, x) \<in> set d"
        with rel2 have "x = [] \<or> (k, x) \<in> set d0" by auto
        then show ?thesis
        proof
          assume "x = []" then show ?thesis by (simp add: encodable_Nil)
        next
          assume "(k, x) \<in> set d0"
          then have "(k, x) \<in> set (AList.update ?key [] d0) \<or> (k = ?key \<and> map_of d0 ?key = Some x)"
            by (rule member_update)
          then show ?thesis
          proof
            assume "(k, x) \<in> set (AList.update ?key [] d0)"
            with enc0 show ?thesis by auto
          next
            assume "k = ?key \<and> map_of d0 ?key = Some x"
            with m0 have "x = []" by auto
            then show ?thesis by (simp add: encodable_Nil)
          qed
        qed
      qed
    qed
    let ?w' = "w\<lparr>trace := trace w @ [WriteFile ?p],
                 files := (files w)(?p := CacheFile (AList.update ?key [] d))\<rparr>"
    from True enc have r: "save_cache c tr (AList.update ?key [] d) w = (None, ?w')"
      by (simp add: save_cache_def Let_def)
    have "cache_sim w0 ?w'"
      unfolding cache_sim_def
    proof (intro conjI allI)
      show "net ?w' = net w0" using nn by simp
      show "writable ?w' = writable w0" using wr by simp
      fix q
      show "files ?w' q = files w0 q \<or>
          (\<exists>d d0. files ?w' q = CacheFile d \<and> dict_of (files w0 q) = Some d0 \<and>
             (\<forall>k. map_of d k = map_of d0 k \<or> map_of d k = Some []) \<and>
             (\<forall>(k, x)\<in>set d. x = [] \<or> (k, x) \<in> set d0))"
      proof (cases "q = ?p")
        case False
        with sim show ?thesis by (simp add: cache_sim_def)
      next
        case True
        have a: "\<forall>k. map_of (AList.update ?key [] d) k = map_of d0 k
                   \<or> map_of (AList.update ?key [] d) k = Some []"
          using rel1 by (simp add: update_conv')
        have b: "\<forall>(k, x)\<in>set (AList.update ?key [] d). x = [] \<or> (k, x) \<in> set d0"
          using rel2 by (auto dest: update_member)
        from True d0 a b show ?thesis by auto
      qed
    qed
    with s r show ?thesis by simp
  qed
qed

lemma no_text_miss:
  "no_text (fst (fetch_verse tr b ch v cache w)) \<Longrightarrow> miss tr b ch v cache w"
  by (auto simp: no_text_def miss_def fetch_verse_unfold split: sum.splits option.splits if_splits)

lemma fetch_verse_sim:
  assumes sim: "cache_sim w0 w" and nt: "no_text (fst (fetch_verse tr b ch v cache w0))"
  shows "fst (fetch_verse tr b ch v cache w) = fst (fetch_verse tr b ch v cache w0)
       \<and> cache_sim w0 (snd (fetch_verse tr b ch v cache w))"
proof -
  let ?url = "verse_url tr b ch v"
  let ?wa = "w\<lparr>trace := trace w @ [HttpGet ?url]\<rparr>"
  let ?wb = "w0\<lparr>trace := trace w0 @ [HttpGet ?url]\<rparr>"
  from nt have m0: "miss tr b ch v cache w0" by (rule no_text_miss)
  with sim have m: "miss tr b ch v cache w" by (rule cache_sim_miss)
  from sim have nn: "net w = net w0" by (simp add: cache_sim_def)
  from sim have sim1: "cache_sim w0 ?wa" by (rule cache_sim_trace)
  show ?thesis
  proof (cases "api_text (net w0 ?url)")
    case (Inl e)
    with m0 nt show ?thesis
      by (auto simp: no_text_def miss_def fetch_verse_unfold)
  next
    case (Inr a)
    show ?thesis
    proof (cases a)
      case None
      with Inr m0 m nn sim1 show ?thesis
        by (auto simp: miss_def fetch_verse_unfold)
    next
      case (Some tx)
      show ?thesis
      proof (cases cache)
        case None
        with Some Inr m0 m nn sim1 show ?thesis
          by (auto simp: miss_def fetch_verse_unfold)
      next
        case c: (Some c)
        let ?p = "get_cache_file c tr"
        have f0: "fetch_verse tr b ch v cache w0 =
            (case save_verse_to_cache c tr b ch v tx ?wb of
               (Some e, w2) \<Rightarrow> (Inl e, w2) | (None, w2) \<Rightarrow> (Inr (Some tx), w2))"
          using Some Inr m0 c by (auto simp: miss_def fetch_verse_unfold)
        have f: "fetch_verse tr b ch v cache w =
            (case save_verse_to_cache c tr b ch v tx ?wa of
               (Some e, w2) \<Rightarrow> (Inl e, w2) | (None, w2) \<Rightarrow> (Inr (Some tx), w2))"
          using Some Inr m nn c by (auto simp: miss_def fetch_verse_unfold)
        from nt f0 have ok01: "fst (save_verse_to_cache c tr b ch v tx ?wb) = None" and t: "tx = []"
          by (cases "save_verse_to_cache c tr b ch v tx ?wb"; auto simp: no_text_def split: option.splits)+
        from ok01 have ok0: "fst (save_verse_to_cache c tr b ch v [] w0) = None"
          by (simp add: t save_trace_irrelevant)
        from m0 c obtain d0 where d0: "dict_of (files w0 ?p) = Some d0"
          and mm: "map_of d0 (cache_key b ch v) = None \<or> map_of d0 (cache_key b ch v) = Some []"
          by (auto simp: miss_def cached_text_def get_verse_from_cache_def load_cache_def dict_of_def
              split: file_state.splits)
        have "fst (save_verse_to_cache c tr b ch v [] ?wa) = None
              \<and> cache_sim w0 (snd (save_verse_to_cache c tr b ch v [] ?wa))"
          using sim1 d0 mm ok0 by (rule save_sim)
        with f f0 ok01 t show ?thesis
          by (cases "save_verse_to_cache c tr b ch v [] ?wa";
              cases "save_verse_to_cache c tr b ch v [] ?wb") auto
      qed
    qed
  qed
qed


lemma try_candidates_exhausted:
  assumes "\<forall>(name, b)\<in>set xs. no_text (fst (fetch_verse tr b ch v cache w0))"
    and "cache_sim w0 w"
  shows "fst (try_candidates tr ch v cache xs w) = Inr Exhausted"
  using assms
proof (induction xs arbitrary: w)
  case Nil
  then show ?case by simp
next
  case (Cons x xs)
  obtain name b where x: "x = (name, b)" by (cases x)
  let ?w' = "snd (fetch_verse tr b ch v cache w)"
  from Cons.prems x have nt0: "no_text (fst (fetch_verse tr b ch v cache w0))" by simp
  with Cons.prems(2) have eq: "fst (fetch_verse tr b ch v cache w) = fst (fetch_verse tr b ch v cache w0)"
    and sim': "cache_sim w0 ?w'"
    using fetch_verse_sim by blast+
  from eq nt0 have nt: "no_text (fst (fetch_verse tr b ch v cache w))" by simp
  have step: "try_candidates tr ch v cache (x # xs) w = try_candidates tr ch v cache xs ?w'"
    using nt by (cases "fetch_verse tr b ch v cache w") (auto simp: x no_text_def)
  have "fst (try_candidates tr ch v cache xs ?w') = Inr Exhausted"
  proof (rule Cons.IH)
    show "\<forall>(name, b)\<in>set xs. no_text (fst (fetch_verse tr b ch v cache w0))"
      using Cons.prems(1) by simp
    show "cache_sim w0 ?w'" by (rule sim')
  qed
  with step show ?case by simp
qed

text \<open>
  Claim C2. If no book of the table has at least the requested number of chapters, or if
  fetch\_verse returns no text (None or the empty string) for every candidate book, then
  pick\_book\_and\_fetch returns the hardcoded default pair, Psalm and
  ``The Lord is my shepherd; I shall not want.''
\<close>

theorem fallback_default_verse:
  assumes perm: "mset (shuffle (candidates ch)) = mset (candidates ch)"
    and none: "candidates ch = [] \<or>
               (\<forall>(name, b)\<in>set (candidates ch). no_text (fst (fetch_verse tr b ch v cache w)))"
  shows "fst (pick_book_and_fetch shuffle tr ch v cache w)
         = Inr (''Psalm'', ustr_of ''The Lord is my shepherd; I shall not want.'')"
proof (cases "candidates ch = []")
  case True
  then show ?thesis by (simp add: pick_book_and_fetch_def pick_path_def DEFAULT_VERSE_def)
next
  case False
  with none have nt: "\<forall>(name, b)\<in>set (candidates ch). no_text (fst (fetch_verse tr b ch v cache w))"
    by simp
  from perm have s: "set (shuffle (candidates ch)) = set (candidates ch)" by (rule mset_eq_setD)
  have "fst (try_candidates tr ch v cache (shuffle (candidates ch)) w) = Inr Exhausted"
  proof (rule try_candidates_exhausted)
    show "\<forall>(name, b)\<in>set (shuffle (candidates ch)). no_text (fst (fetch_verse tr b ch v cache w))"
      using nt s by simp
    show "cache_sim w w" by (rule cache_sim_refl)
  qed
  with False show ?thesis
    by (cases "try_candidates tr ch v cache (shuffle (candidates ch)) w")
       (simp add: pick_book_and_fetch_def pick_path_def DEFAULT_VERSE_def)
qed

theorem fallback_default_verse_witness:
  "mset (rev (candidates 24)) = mset (candidates 24)
   \<and> fst (pick_book_and_fetch rev ''KJV'' 24 1 (Some c0) w_offline)
       = Inr (''Psalm'', ustr_of ''The Lord is my shepherd; I shall not want.'')"
proof -
  have off: "fst (fetch_verse ''KJV'' b 24 1 (Some c0) w_offline) = Inr None" for b
    by (simp add: fetch_verse_def get_verse_from_cache_def load_cache_def w_offline_def)
  have p: "mset (rev (candidates 24)) = mset (candidates 24)" by simp
  have n: "candidates 24 = [] \<or>
           (\<forall>(name, b)\<in>set (candidates 24).
              no_text (fst (fetch_verse ''KJV'' b 24 1 (Some c0) w_offline)))"
    by (simp add: off no_text_def)
  from fallback_default_verse [of rev 24 "''KJV''" 1 "Some c0" w_offline, OF p n] p show ?thesis by simp
qed

subsection \<open>The picked book has the chapter\<close>

lemma try_candidates_found:
  "fst (try_candidates tr ch v cache xs w) = Inr (Found name t) \<Longrightarrow> name \<in> fst ` set xs"
proof (induction xs arbitrary: w)
  case Nil
  then show ?case by simp
next
  case (Cons x xs)
  obtain n b where x: "x = (n, b)" by (cases x)
  obtain r w' where f: "fetch_verse tr b ch v cache w = (r, w')" by (cases "fetch_verse tr b ch v cache w")
  show ?case
  proof (cases "fst (try_candidates tr ch v cache (x # xs) w) = fst (try_candidates tr ch v cache xs w')")
    case True
    with Cons.prems have "name \<in> fst ` set xs" using Cons.IH by simp
    then show ?thesis by simp
  next
    case False
    with Cons.prems x f have "name = n"
      by (auto split: sum.splits option.splits if_splits)
    with x show ?thesis by simp
  qed
qed

lemma candidates_books:
  "(name, b) \<in> set (candidates ch) \<Longrightarrow> \<exists>max_ch. (name, b, max_ch) \<in> set BOOKS \<and> ch \<le> max_ch"
  by (auto simp: candidates_def)

text \<open>
  Claim C3. Whenever pick\_book\_and\_fetch returns without taking the hardcoded fallback
  (it returns at line 218, with the name and text of a successful fetch), the book name it
  returns belongs to an entry of the books table whose chapter count is at least the
  requested chapter.
\<close>

theorem picked_book_has_chapter:
  assumes perm: "mset (shuffle (candidates ch)) = mset (candidates ch)"
    and found: "fst (pick_path shuffle tr ch v cache w) = Inr (Found name t)"
  shows "fst (pick_book_and_fetch shuffle tr ch v cache w) = Inr (name, t)
       \<and> (\<exists>book_id max_ch. (name, book_id, max_ch) \<in> set BOOKS \<and> ch \<le> max_ch)"
proof -
  from found have ne: "candidates ch \<noteq> []"
    by (auto simp: pick_path_def split: if_splits)
  with found have "fst (try_candidates tr ch v cache (shuffle (candidates ch)) w) = Inr (Found name t)"
    by (simp add: pick_path_def)
  then have "name \<in> fst ` set (shuffle (candidates ch))" by (rule try_candidates_found)
  also from perm have "set (shuffle (candidates ch)) = set (candidates ch)" by (rule mset_eq_setD)
  finally obtain b where "(name, b) \<in> set (candidates ch)" by auto
  then have "\<exists>book_id max_ch. (name, book_id, max_ch) \<in> set BOOKS \<and> ch \<le> max_ch"
    using candidates_books by blast
  moreover from found have "fst (pick_book_and_fetch shuffle tr ch v cache w) = Inr (name, t)"
    by (cases "pick_path shuffle tr ch v cache w") (simp add: pick_book_and_fetch_def)
  ultimately show ?thesis by simp
qed

theorem picked_book_has_chapter_witness:
  "mset (rev (candidates 150)) = mset (candidates 150)
   \<and> fst (pick_path rev ''KJV'' 150 1 None w_net) = Inr (Found ''Psalm'' (ustr_of ''In the beginning''))
   \<and> fst (pick_book_and_fetch rev ''KJV'' 150 1 None w_net) = Inr (''Psalm'', ustr_of ''In the beginning'')
   \<and> (\<exists>book_id max_ch. (''Psalm'', book_id, max_ch) \<in> set BOOKS \<and> 150 \<le> max_ch)"
proof -
  have c: "candidates 150 = [(''Psalm'', 19)]"
    by (simp add: candidates_def BOOKS_def)
  have f: "fst (fetch_verse ''KJV'' 19 150 1 None w_net) = Inr (Some (ustr_of ''In the beginning''))"
    by (simp add: fetch_verse_def w_net_def has_text_def text_field_def ustr_of_def Let_def
        strip_def isspace_def LT_def GT_def SP_def)
  have ne: "ustr_of ''In the beginning'' \<noteq> []" by (simp add: ustr_of_def)
  have p: "mset (rev (candidates 150)) = mset (candidates 150)" by simp
  have found: "fst (pick_path rev ''KJV'' 150 1 None w_net)
               = Inr (Found ''Psalm'' (ustr_of ''In the beginning''))"
    using f ne by (cases "fetch_verse ''KJV'' 19 150 1 None w_net") (simp add: pick_path_def c)
  from picked_book_has_chapter [of rev 150 "''KJV''" 1 None w_net, OF p found] p found show ?thesis by simp
qed

subsection \<open>One bulk download at a time\<close>

lemma alive_is_current_start:
  assumes "alive_is_current s"
  shows "alive_is_current (start_bulk_download translations s)"
proof (cases "case download_thread s of None \<Rightarrow> False | Some t \<Rightarrow> is_alive s t")
  case True
  with assms show ?thesis by (simp add: start_bulk_download_def)
next
  case False
  with assms have dead: "\<not> is_alive s i" for i
    by (auto simp: alive_is_current_def split: option.splits)
  show ?thesis
    unfolding alive_is_current_def
  proof (intro allI impI)
    fix i
    assume a: "is_alive (start_bulk_download translations s) i"
    show "download_thread (start_bulk_download translations s) = Some i"
    proof (cases "i < length (threads s)")
      case True
      with a False have "is_alive s i"
        by (simp add: start_bulk_download_def is_alive_def nth_append)
      with dead show ?thesis by simp
    next
      case ge: False
      with a False have "i = length (threads s)"
        by (simp add: start_bulk_download_def is_alive_def split: if_splits)
      with False show ?thesis by (simp add: start_bulk_download_def)
    qed
  qed
qed

lemma alive_is_current_exit:
  assumes "alive_is_current s"
  shows "alive_is_current (thread_exit t s)"
  using assms
  by (auto simp: alive_is_current_def thread_exit_def is_alive_def nth_list_update split: if_splits)

lemma reachable_alive_is_current: "reachable s \<Longrightarrow> alive_is_current s"
proof (induction rule: reachable.induct)
  case reach_init
  show ?case by (simp add: alive_is_current_def init_plugin_def is_alive_def)
next
  case (reach_start s trs)
  then show ?case by (simp add: alive_is_current_start)
next
  case (reach_exit s t)
  then show ?case by (simp add: alive_is_current_exit)
qed

text \<open>
  Claim C9. At most one bulk pre-fetch runs at a time: in every state that calls of
  start\_bulk\_download and thread exits can reach, at most one created thread is alive;
  and whenever start\_bulk\_download is called while the thread stored in download\_thread
  is still alive, it returns without creating or starting a thread (the list of threads is
  unchanged) and leaves the stored reference as it was.
\<close>

theorem one_download_at_a_time:
  assumes "reachable s"
  shows "(\<forall>i j. is_alive s i \<and> is_alive s j \<longrightarrow> i = j)
       \<and> (\<forall>t translations. download_thread s = Some t \<and> is_alive s t \<longrightarrow>
            start_bulk_download translations s = s
            \<and> threads (start_bulk_download translations s) = threads s
            \<and> download_thread (start_bulk_download translations s) = Some t)"
proof -
  from assms have "alive_is_current s" by (rule reachable_alive_is_current)
  then have "\<forall>i j. is_alive s i \<and> is_alive s j \<longrightarrow> i = j"
    unfolding alive_is_current_def by (metis option.inject)
  moreover have "\<forall>t translations. download_thread s = Some t \<and> is_alive s t \<longrightarrow>
            start_bulk_download translations s = s
            \<and> threads (start_bulk_download translations s) = threads s
            \<and> download_thread (start_bulk_download translations s) = Some t"
    by (simp add: start_bulk_download_def)
  ultimately show ?thesis by (rule conjI)
qed

theorem one_download_at_a_time_witness:
  "reachable (start_bulk_download [''KJV''] init_plugin)
   \<and> download_thread (start_bulk_download [''KJV''] init_plugin) = Some 0
   \<and> is_alive (start_bulk_download [''KJV''] init_plugin) 0
   \<and> start_bulk_download [''NIV''] (start_bulk_download [''KJV''] init_plugin)
       = start_bulk_download [''KJV''] init_plugin"
proof -
  let ?s = "start_bulk_download [''KJV''] init_plugin"
  have r: "reachable ?s" by (intro reachable.intros)
  have d: "download_thread ?s = Some 0" by (simp add: start_bulk_download_def init_plugin_def)
  have a: "is_alive ?s 0" by (simp add: start_bulk_download_def init_plugin_def is_alive_def)
  from one_download_at_a_time [OF r] r d a show ?thesis by blast
qed

subsection \<open>The bulk download and the grid\<close>

lemma for_each_calls:
  assumes "\<And>x s. x \<in> set xs \<Longrightarrow>
             (case body x s of
                Inr s' \<Rightarrow> calls s' = calls s @ f x
              | Inl (e, s') \<Rightarrow> \<exists>p. calls s' = calls s @ p \<and> prefix p (f x))"
  shows "case for_each body xs s of
           Inr s' \<Rightarrow> calls s' = calls s @ concat (map f xs)
         | Inl (e, s') \<Rightarrow> \<exists>p. calls s' = calls s @ p \<and> prefix p (concat (map f xs))"
  using assms
proof (induction xs arbitrary: s)
  case Nil
  then show ?case by simp
next
  case (Cons x xs)
  have hx: "case body x s of
              Inr s' \<Rightarrow> calls s' = calls s @ f x
            | Inl (e, s') \<Rightarrow> \<exists>p. calls s' = calls s @ p \<and> prefix p (f x)"
    by (rule Cons.prems) simp
  show ?case
  proof (cases "body x s")
    case (Inl err)
    obtain e s' where err: "err = (e, s')" by (cases err)
    with hx Inl obtain p where "calls s' = calls s @ p" "prefix p (f x)" by auto
    then have "calls s' = calls s @ p \<and> prefix p (concat (map f (x # xs)))"
      by (auto simp: prefix_def)
    with Inl err show ?thesis by auto
  next
    case (Inr s1)
    with hx have c1: "calls s1 = calls s @ f x" by simp
    have ih: "case for_each body xs s1 of
           Inr s' \<Rightarrow> calls s' = calls s1 @ concat (map f xs)
         | Inl (e, s') \<Rightarrow> \<exists>p. calls s' = calls s1 @ p \<and> prefix p (concat (map f xs))"
      by (rule Cons.IH) (rule Cons.prems, simp)
    show ?thesis
    proof (cases "for_each body xs s1")
      case (Inl err)
      obtain e s' where err: "err = (e, s')" by (cases err)
      with ih Inl obtain p where "calls s' = calls s1 @ p" "prefix p (concat (map f xs))" by auto
      with c1 have "calls s' = calls s @ (f x @ p) \<and> prefix (f x @ p) (concat (map f (x # xs)))"
        by simp
      then have "\<exists>q. calls s' = calls s @ q \<and> prefix q (concat (map f (x # xs)))" by blast
      with Inl err \<open>body x s = Inr s1\<close> show ?thesis by simp
    next
      case (Inr s2)
      with ih c1 \<open>body x s = Inr s1\<close> show ?thesis by simp
    qed
  qed
qed

lemma for_each_invariant:
  assumes "Q s"
    and "\<And>x s. x \<in> set xs \<Longrightarrow> Q s \<Longrightarrow> (case body x s of Inr s' \<Rightarrow> Q s' | Inl (e, s') \<Rightarrow> Q s')"
  shows "case for_each body xs s of Inr s' \<Rightarrow> Q s' | Inl (e, s') \<Rightarrow> Q s'"
  using assms
proof (induction xs arbitrary: s)
  case Nil
  then show ?case by simp
next
  case (Cons x xs)
  have hx: "case body x s of Inr s' \<Rightarrow> Q s' | Inl (e, s') \<Rightarrow> Q s'"
    using Cons.prems by simp
  show ?case
  proof (cases "body x s")
    case (Inl err)
    with hx show ?thesis by simp
  next
    case (Inr s1)
    with hx have "Q s1" by simp
    then have "case for_each body xs s1 of Inr s' \<Rightarrow> Q s' | Inl (e, s') \<Rightarrow> Q s'"
      by (rule Cons.IH) (rule Cons.prems, simp_all)
    with Inr show ?thesis by simp
  qed
qed

lemma for_each_succeeds:
  assumes "I s"
    and "\<And>x s. x \<in> set xs \<Longrightarrow> I s \<Longrightarrow> \<exists>s'. body x s = Inr s' \<and> I s'"
  shows "\<exists>s'. for_each body xs s = Inr s' \<and> I s'"
  using assms
proof (induction xs arbitrary: s)
  case Nil
  then show ?case by simp
next
  case (Cons x xs)
  from Cons.prems obtain s1 where b: "body x s = Inr s1" and i: "I s1" by (meson list.set_intros(1))
  from i have "\<exists>s'. for_each body xs s1 = Inr s' \<and> I s'"
    by (rule Cons.IH) (rule Cons.prems, simp_all)
  with b show ?case by simp
qed

lemma first_book:
  assumes "ch \<le> 50"
  shows "\<exists>others. [book_id. (name, book_id, max_ch) \<leftarrow> BOOKS, max_ch \<ge> ch] = 1 # others"
proof -
  have "BOOKS = (''Genesis'', 1, 50) # tl BOOKS" by (simp add: BOOKS_def)
  then have "[book_id. (name, book_id, max_ch) \<leftarrow> BOOKS, max_ch \<ge> ch]
      = [book_id. (name, book_id, max_ch) \<leftarrow> (''Genesis'', 1, 50) # tl BOOKS, max_ch \<ge> ch]"
    by simp
  with assms show ?thesis by simp
qed

lemma for_each_rel:
  assumes "P s"
    and "\<And>x s. x \<in> set xs \<Longrightarrow> P s \<Longrightarrow> (case body x s of Inr s' \<Rightarrow> P s' | Inl (e, s') \<Rightarrow> Q e s')"
  shows "case for_each body xs s of Inr s' \<Rightarrow> P s' | Inl (e, s') \<Rightarrow> Q e s'"
  using assms
proof (induction xs arbitrary: s)
  case Nil
  then show ?case by simp
next
  case (Cons x xs)
  have hx: "case body x s of Inr s' \<Rightarrow> P s' | Inl (e, s') \<Rightarrow> Q e s'"
    using Cons.prems by simp
  show ?case
  proof (cases "body x s")
    case (Inl err)
    with hx show ?thesis by simp
  next
    case (Inr s1)
    with hx have "P s1" by simp
    then have "case for_each body xs s1 of Inr s' \<Rightarrow> P s' | Inl (e, s') \<Rightarrow> Q e s'"
      by (rule Cons.IH) (rule Cons.prems, simp_all)
    with Inr show ?thesis by simp
  qed
qed

lemma verse_step_calls:
  assumes "ch \<le> 50"
  shows "case verse_step c tot tr ch v s of
           Inr s' \<Rightarrow> attempted s' = attempted s @ [(tr, 1, ch, v)]
         | Inl (e, s') \<Rightarrow> \<exists>p. attempted s' = attempted s @ p \<and> prefix p [(tr, 1, ch, v)]"
proof -
  obtain others where "[book_id. (name, book_id, max_ch) \<leftarrow> BOOKS, max_ch \<ge> ch] = 1 # others"
    using first_book [OF assms] by blast
  then show ?thesis
    by (cases "fetch_verse tr 1 ch v (Some c) (dl_world s)")
       (auto simp: verse_step_def Let_def split: sum.splits)
qed

lemma concat_singletons: "concat (map (\<lambda>x. [g x]) xs) = map g xs"
  by (induction xs) simp_all

lemma spec_grid_concat:
  "spec_grid trs =
     concat (map (\<lambda>tr. concat (map (\<lambda>ch. concat (map (\<lambda>v. [(tr, 1, ch, v)]) [1..60])) [1..24])) trs)"
  by (simp add: spec_grid_def)

lemma chapter_loop_calls:
  assumes "ch \<le> 50"
  shows "case for_each (verse_step c tot tr ch) vs s of
           Inr s' \<Rightarrow> attempted s' = attempted s @ concat (map (\<lambda>v. [(tr, 1, ch, v)]) vs)
         | Inl (e, s') \<Rightarrow> \<exists>p. attempted s' = attempted s @ p
                               \<and> prefix p (concat (map (\<lambda>v. [(tr, 1, ch, v)]) vs))"
  by (rule for_each_calls) (rule verse_step_calls [OF assms])

lemma translation_loop_calls:
  "case for_each (\<lambda>ch. for_each (verse_step c tot tr ch) vs) [1..24] s of
     Inr s' \<Rightarrow> attempted s' = attempted s
                 @ concat (map (\<lambda>ch. concat (map (\<lambda>v. [(tr, 1, ch, v)]) vs)) [1..24])
   | Inl (e, s') \<Rightarrow> \<exists>p. attempted s' = attempted s @ p
                 \<and> prefix p (concat (map (\<lambda>ch. concat (map (\<lambda>v. [(tr, 1, ch, v)]) vs)) [1..24]))"
proof (rule for_each_calls)
  fix ch :: int and s :: download
  assume "ch \<in> set [1..24]"
  then have "ch \<le> 50" by simp
  then show "case for_each (verse_step c tot tr ch) vs s of
           Inr s' \<Rightarrow> attempted s' = attempted s @ concat (map (\<lambda>v. [(tr, 1, ch, v)]) vs)
         | Inl (e, s') \<Rightarrow> \<exists>p. attempted s' = attempted s @ p
                               \<and> prefix p (concat (map (\<lambda>v. [(tr, 1, ch, v)]) vs))"
    by (rule chapter_loop_calls)
qed

lemma all_loops_calls:
  "case for_each (\<lambda>tr. for_each (\<lambda>ch. for_each (verse_step c tot tr ch) [1..60]) [1..24]) trs s of
     Inr s' \<Rightarrow> attempted s' = attempted s @ spec_grid trs
   | Inl (e, s') \<Rightarrow> \<exists>p. attempted s' = attempted s @ p \<and> prefix p (spec_grid trs)"
  unfolding spec_grid_concat
  by (rule for_each_calls) (rule translation_loop_calls)

lemma save_cache_trace:
  "e \<in> set (trace (snd (save_cache c tr d w)))
   \<Longrightarrow> e \<in> set (trace w) \<or> (\<exists>p. e = WriteFile p)"
  by (auto simp: save_cache_def Let_def split: if_splits)

lemma save_verse_trace:
  "e \<in> set (trace (snd (save_verse_to_cache c tr b ch v t w)))
   \<Longrightarrow> e \<in> set (trace w) \<or> (\<exists>p. e = WriteFile p)"
  by (auto simp: save_verse_to_cache_def dest: save_cache_trace split: sum.splits cache_data.splits)

lemma fetch_verse_trace:
  "e \<in> set (trace (snd (fetch_verse tr b ch v cache w)))
   \<Longrightarrow> e \<in> set (trace w) \<or> (\<exists>u. e = HttpGet u) \<or> (\<exists>p. e = WriteFile p)"
proof -
  assume a: "e \<in> set (trace (snd (fetch_verse tr b ch v cache w)))"
  let ?wa = "w\<lparr>trace := trace w @ [HttpGet (verse_url tr b ch v)]\<rparr>"
  have sv: "save_verse_to_cache c tr b ch v t ?wa = (r, w2) \<Longrightarrow> e \<in> set (trace w2)
        \<Longrightarrow> e \<in> set (trace w) \<or> (\<exists>u. e = HttpGet u) \<or> (\<exists>p. e = WriteFile p)" for c t r w2
    using save_verse_trace [of e c tr b ch v t ?wa] by auto
  from a show ?thesis
    unfolding fetch_verse_unfold
    by (auto split: sum.splits option.splits if_splits prod.splits dest: sv)
qed

lemma verse_step_totals:
  assumes "totals_ok T w0 s"
  shows "case verse_step c T tr ch v s of Inr s' \<Rightarrow> totals_ok T w0 s' | Inl (e, s') \<Rightarrow> totals_ok T w0 s'"
proof (cases "[book_id. (name, book_id, max_ch) \<leftarrow> BOOKS, max_ch \<ge> ch]")
  case Nil
  from assms show ?thesis unfolding verse_step_def Nil by simp
next
  case (Cons b others)
  obtain r w' where f: "fetch_verse tr b ch v (Some c) (dl_world s) = (r, w')"
    by (cases "fetch_verse tr b ch v (Some c) (dl_world s)")
  have w': "SetStatus st m \<in> set (trace w') \<Longrightarrow> SetStatus st m \<in> set (trace (dl_world s))" for st m
    using fetch_verse_trace [of "SetStatus st m" tr b ch v "Some c" "dl_world s"] f by auto
  show ?thesis
  proof (cases r)
    case (Inl e)
    with Cons f assms w' show ?thesis
      by (auto simp: verse_step_def Let_def totals_ok_def)
  next
    case (Inr t)
    with Cons f assms w' show ?thesis
      by (auto simp: verse_step_def Let_def totals_ok_def set_download_status_def)
  qed
qed

lemma all_loops_totals:
  assumes "totals_ok T w0 s"
  shows "case for_each (\<lambda>tr. for_each (\<lambda>ch. for_each (verse_step c T tr ch) vs) cs) trs s of
           Inr s' \<Rightarrow> totals_ok T w0 s' | Inl (e, s') \<Rightarrow> totals_ok T w0 s'"
  using assms
  by (intro for_each_invariant verse_step_totals)

lemma length_concat_const:
  "\<forall>x\<in>set xs. length (f x) = k \<Longrightarrow> length (concat (map f xs)) = k * length xs"
  by (induction xs) simp_all

lemma length_spec_grid: "length (spec_grid trs) = 24 * 60 * length trs"
proof -
  have inner: "length (concat (map (\<lambda>ch. map (\<lambda>v. (tr, 1::int, ch, v)) [1..60]) [1..24::int])) = 60 * 24"
    for tr :: string
    using length_concat_const [of "[1..24]" "\<lambda>ch. map (\<lambda>v. (tr, 1::int, ch, v)) [1..60]" 60]
    by simp
  have "length (spec_grid trs) = (60 * 24) * length trs"
    unfolding spec_grid_def
    by (rule length_concat_const) (simp add: inner)
  then show ?thesis by simp
qed

text \<open>
  Claim C7, as amended. download\_all\_verses calls fetch\_verse for an initial segment of
  the fixed grid, serially and in the nested order translation, chapter 1..24, verse 1..60
  (always with book 1). It ends with the status completed or with the status error; when
  it ends with completed the calls are exactly the whole grid, and it does end with
  completed when no response makes fetch\_verse raise. Every progress report names as total
  24 * 60 * (number of translations), which is also the size of the grid.
\<close>

lemma verse_step_results:
  assumes "all_returned s"
  shows "case verse_step c T tr ch v s of
           Inr s' \<Rightarrow> all_returned s'
         | Inl (e, s') \<Rightarrow> stopped_at e s'"
proof (cases "[book_id. (name, book_id, max_ch) \<leftarrow> BOOKS, max_ch \<ge> ch]")
  case Nil
  from assms show ?thesis unfolding verse_step_def Nil by simp
next
  case (Cons b others)
  obtain r w' where f: "fetch_verse tr b ch v (Some c) (dl_world s) = (r, w')"
    by (cases "fetch_verse tr b ch v (Some c) (dl_world s)")
  show ?thesis
  proof (cases r)
    case (Inl e)
    with Cons f assms show ?thesis
      by (auto simp: verse_step_def Let_def all_returned_def stopped_at_def)
  next
    case (Inr t)
    with Cons f assms show ?thesis
      by (auto simp: verse_step_def Let_def all_returned_def returned_def)
  qed
qed

lemma all_loops_results:
  assumes "all_returned s"
  shows "case for_each (\<lambda>tr. for_each (\<lambda>ch. for_each (verse_step c T tr ch) vs) cs) trs s of
           Inr s' \<Rightarrow> all_returned s' | Inl (e, s') \<Rightarrow> stopped_at e s'"
  using assms
  by (intro for_each_rel verse_step_results)


lemma stopped_at_earlier:
  assumes "stopped_at e s" and "Suc i < length (results s)"
  shows "returned (results s ! i)"
proof -
  from assms(2) have "i < length (butlast (results s))" by simp
  then have "butlast (results s) ! i \<in> set (butlast (results s))" by (rule nth_mem)
  moreover from assms(2) have "butlast (results s) ! i = results s ! i"
    by (simp add: nth_butlast)
  ultimately show ?thesis using assms(1) by (simp add: stopped_at_def)
qed

lemma stopped_at_not_all:
  assumes "stopped_at e s"
  shows "\<not> (\<forall>x\<in>set (results s). returned x)"
proof
  assume a: "\<forall>x\<in>set (results s). returned x"
  from assms have "results s \<noteq> []" "last (results s) = Inl e" by (simp_all add: stopped_at_def)
  then have "Inl e \<in> set (results s)" by (metis last_in_set)
  with a show False by (auto simp: returned_def)
qed

text \<open>
  Claim C7, as amended. download\_all\_verses calls fetch\_verse for an initial segment of
  the fixed grid, serially and in the nested order translation, chapter 1..24, verse 1..60
  (always with book 1). Every call but the last one made has returned. If every call made
  returned, the calls are exactly the whole grid and the final status is completed; if the
  last call made raised an exception, the download stopped there and the final status is
  error with that exception. Every progress report names as total
  24 * 60 * (number of translations), which is also the size of the grid.
\<close>

theorem download_attempts_prefix_of_grid:
  "prefix (attempted (download_all_verses c trs w)) (spec_grid trs)
   \<and> length (results (download_all_verses c trs w)) = length (attempted (download_all_verses c trs w))
   \<and> (\<forall>i. Suc i < length (results (download_all_verses c trs w))
          \<longrightarrow> returned (results (download_all_verses c trs w) ! i))
   \<and> ((\<forall>x\<in>set (results (download_all_verses c trs w)). returned x)
        \<longrightarrow> attempted (download_all_verses c trs w) = spec_grid trs
          \<and> last (trace (dl_world (download_all_verses c trs w)))
              = SetStatus ''completed'' (Completed (length trs)))
   \<and> (\<forall>e. results (download_all_verses c trs w) \<noteq> []
          \<and> last (results (download_all_verses c trs w)) = Inl e
        \<longrightarrow> last (trace (dl_world (download_all_verses c trs w))) = SetStatus ''error'' (Failed e))
   \<and> (\<forall>st tr d t.
        SetStatus st (Progress tr d t) \<in> set (trace (dl_world (download_all_verses c trs w)))
        \<longrightarrow> t = 24 * 60 * int (length trs) \<or> SetStatus st (Progress tr d t) \<in> set (trace w))
   \<and> length (spec_grid trs) = 24 * 60 * length trs"
proof -
  let ?T = "24 * 60 * int (length trs)"
  let ?wa = "set_download_status ''downloading'' Starting w"
  let ?s0 = "\<lparr>downloaded_verses = 0, attempted = [], results = [], dl_world = ?wa\<rparr>"
  let ?loops = "for_each (\<lambda>tr. for_each (\<lambda>ch. for_each (verse_step c ?T tr ch) [1..60]) [1..24]) trs ?s0"
  have calls: "case ?loops of
       Inr s' \<Rightarrow> attempted s' = attempted ?s0 @ spec_grid trs
     | Inl (e, s') \<Rightarrow> \<exists>p. attempted s' = attempted ?s0 @ p \<and> prefix p (spec_grid trs)"
    by (rule all_loops_calls)
  have "totals_ok ?T w ?s0"
    by (auto simp: totals_ok_def set_download_status_def)
  then have totals: "case ?loops of Inr s' \<Rightarrow> totals_ok ?T w s' | Inl (e, s') \<Rightarrow> totals_ok ?T w s'"
    by (rule all_loops_totals)
  have "all_returned ?s0" by (simp add: all_returned_def)
  then have res: "case ?loops of Inr s' \<Rightarrow> all_returned s' | Inl (e, s') \<Rightarrow> stopped_at e s'"
    by (rule all_loops_results)
  show ?thesis
  proof (cases ?loops)
    case (Inr s)
    then have r: "download_all_verses c trs w
        = s\<lparr>dl_world := set_download_status ''completed'' (Completed (length trs)) (dl_world s)\<rparr>"
      by (simp add: download_all_verses_def Let_def)
    from calls Inr have a: "attempted s = spec_grid trs" by simp
    from totals Inr have t: "totals_ok ?T w s" by simp
    from res Inr have g: "all_returned s" by simp
    then have g1: "length (results s) = length (attempted s)"
      and g2: "\<forall>x\<in>set (results s). returned x" by (simp_all add: all_returned_def)
    from g2 have g3: "\<forall>i. Suc i < length (results s) \<longrightarrow> returned (results s ! i)" by simp
    from g2 have g4: "\<forall>e. results s \<noteq> [] \<and> last (results s) = Inl e \<longrightarrow> False"
      by (metis last_in_set returned_def old.sum.simps(5))
    have t': "\<forall>st tr d t. SetStatus st (Progress tr d t)
                 \<in> set (trace (set_download_status ''completed'' (Completed (length trs)) (dl_world s)))
              \<longrightarrow> t = ?T \<or> SetStatus st (Progress tr d t) \<in> set (trace w)"
      using t by (auto simp: set_download_status_def totals_ok_def)
    have l: "last (trace (set_download_status ''completed'' (Completed (length trs)) (dl_world s)))
             = SetStatus ''completed'' (Completed (length trs))"
      by (simp add: set_download_status_def)
    show ?thesis
      unfolding r using a g1 g3 g4 t' l length_spec_grid [of trs] by simp
  next
    case (Inl err)
    obtain e s where err: "err = (e, s)" by (cases err)
    with Inl have r: "download_all_verses c trs w
        = s\<lparr>dl_world := set_download_status ''error'' (Failed e) (dl_world s)\<rparr>"
      by (simp add: download_all_verses_def Let_def)
    from calls Inl err have a: "prefix (attempted s) (spec_grid trs)" by auto
    from totals Inl err have t: "totals_ok ?T w s" by simp
    from res Inl err have b: "stopped_at e s" by simp
    then have b1: "length (results s) = length (attempted s)"
      and b2: "last (results s) = Inl e" by (simp_all add: stopped_at_def)
    from b have b3: "\<forall>i. Suc i < length (results s) \<longrightarrow> returned (results s ! i)"
      using stopped_at_earlier by blast
    from b have b4: "\<not> (\<forall>x\<in>set (results s). returned x)" by (rule stopped_at_not_all)
    have t': "\<forall>st tr d t. SetStatus st (Progress tr d t)
                 \<in> set (trace (set_download_status ''error'' (Failed e) (dl_world s)))
              \<longrightarrow> t = ?T \<or> SetStatus st (Progress tr d t) \<in> set (trace w)"
      using t by (auto simp: set_download_status_def totals_ok_def)
    have l: "last (trace (set_download_status ''error'' (Failed e) (dl_world s)))
             = SetStatus ''error'' (Failed e)"
      by (simp add: set_download_status_def)
    show ?thesis
      unfolding r using a b1 b2 b3 b4 t' l length_spec_grid [of trs] by simp
  qed
qed

lemma fetch_verse_offline:
  assumes "files w = (\<lambda>p. NoFile)" and "net w = (\<lambda>u. URLError)"
  shows "fetch_verse tr b ch v (Some c) w
         = (Inr None, w\<lparr>trace := trace w @ [HttpGet (verse_url tr b ch v)]\<rparr>)"
  using assms by (simp add: fetch_verse_def get_verse_from_cache_def load_cache_def Let_def)

lemma verse_step_offline:
  assumes "offline s"
  shows "\<exists>s'. verse_step c T tr ch v s = Inr s' \<and> offline s'"
proof (cases "[book_id. (name, book_id, max_ch) \<leftarrow> BOOKS, max_ch \<ge> ch]")
  case Nil
  from assms show ?thesis unfolding verse_step_def Nil by simp
next
  case (Cons b others)
  from assms have f: "fetch_verse tr b ch v (Some c) (dl_world s)
      = (Inr None, (dl_world s)\<lparr>trace := trace (dl_world s) @ [HttpGet (verse_url tr b ch v)]\<rparr>)"
    by (intro fetch_verse_offline) (simp_all add: offline_def)
  from assms show ?thesis
    by (auto simp: verse_step_def Cons f Let_def offline_def all_returned_def returned_def
        set_download_status_def)
qed

lemma offline_download_returns:
  "\<forall>x\<in>set (results (download_all_verses c trs w_offline)). returned x"
proof -
  let ?T = "24 * 60 * int (length trs)"
  let ?s0 = "\<lparr>downloaded_verses = 0, attempted = [], results = [],
              dl_world = set_download_status ''downloading'' Starting w_offline\<rparr>"
  let ?loops = "for_each (\<lambda>tr. for_each (\<lambda>ch. for_each (verse_step c ?T tr ch) [1..60]) [1..24]) trs ?s0"
  have "offline ?s0"
    by (simp add: offline_def all_returned_def set_download_status_def w_offline_def)
  then have "\<exists>s'. ?loops = Inr s' \<and> offline s'"
    by (intro for_each_succeeds verse_step_offline)
  then obtain s' where l: "?loops = Inr s'" and o: "offline s'" by blast
  from l have "results (download_all_verses c trs w_offline) = results s'"
    by (simp add: download_all_verses_def Let_def)
  with o show ?thesis by (simp add: offline_def all_returned_def)
qed

theorem download_attempts_prefix_of_grid_witness:
  "attempted (download_all_verses c0 [''KJV''] w_offline) = spec_grid [''KJV'']
   \<and> last (trace (dl_world (download_all_verses c0 [''KJV''] w_offline)))
       = SetStatus ''completed'' (Completed (length [''KJV'']))
   \<and> length (spec_grid [''KJV'']) = 1440"
proof -
  have n: "\<forall>x\<in>set (results (download_all_verses c0 [''KJV''] w_offline)). returned x"
    by (rule offline_download_returns)
  from download_attempts_prefix_of_grid [of c0 "[''KJV'']" w_offline] n show ?thesis
    by simp
qed

text \<open>
  Claim C7 as stated fails: an exception that fetch\_verse does not catch (here a failure of
  the first request that is not a URLError) is caught by the handler of
  download\_all\_verses, which records the status error and stops. Only the first
  combination of the grid has then been attempted.
\<close>

theorem download_grid_counterexample:
  "attempted (download_all_verses c0 [''KJV''] w_timeout) = [(''KJV'', 1, 1, 1)]
   \<and> (''KJV'', 1, 1, 2) \<in> set (spec_grid [''KJV''])
   \<and> results (download_all_verses c0 [''KJV''] w_timeout) = [Inl OtherExn]
   \<and> last (trace (dl_world (download_all_verses c0 [''KJV''] w_timeout)))
       = SetStatus ''error'' (Failed OtherExn)"
proof -
  have "fetch_verse ''KJV'' 1 1 1 (Some c0) (set_download_status ''downloading'' Starting w_timeout)
        = (Inl OtherExn, (set_download_status ''downloading'' Starting w_timeout)
             \<lparr>trace := trace (set_download_status ''downloading'' Starting w_timeout)
                        @ [HttpGet (verse_url ''KJV'' 1 1 1)]\<rparr>)"
    by (simp add: fetch_verse_def get_verse_from_cache_def load_cache_def w_timeout_def
        set_download_status_def Let_def)
  moreover obtain others where "[book_id. (name, book_id, max_ch) \<leftarrow> BOOKS, max_ch \<ge> (1::int)] = 1 # others"
    using first_book [of 1] by auto
  ultimately have "verse_step c0 (24 * 60 * int (length [''KJV''])) ''KJV'' 1 1
      \<lparr>downloaded_verses = 0, attempted = [], results = [],
       dl_world = set_download_status ''downloading'' Starting w_timeout\<rparr>
     = Inl (OtherExn, \<lparr>downloaded_verses = 0, attempted = [(''KJV'', 1, 1, 1)],
         results = [Inl OtherExn],
         dl_world = (set_download_status ''downloading'' Starting w_timeout)
             \<lparr>trace := trace (set_download_status ''downloading'' Starting w_timeout)
                        @ [HttpGet (verse_url ''KJV'' 1 1 1)]\<rparr>\<rparr>)"
    by (simp add: verse_step_def Let_def)
  moreover have "[1..60] = 1 # [2..60]" "[1..24] = 1 # [2..24]"
    by (simp_all add: upto_rec1)
  ultimately have "attempted (download_all_verses c0 [''KJV''] w_timeout) = [(''KJV'', 1, 1, 1)]
    \<and> results (download_all_verses c0 [''KJV''] w_timeout) = [Inl OtherExn]
    \<and> last (trace (dl_world (download_all_verses c0 [''KJV''] w_timeout)))
       = SetStatus ''error'' (Failed OtherExn)"
    by (simp add: download_all_verses_def Let_def set_download_status_def)
  moreover have "(''KJV'', 1, 1, 2) \<in> set (spec_grid [''KJV''])"
    by (auto simp: spec_grid_def image_iff)
  ultimately show ?thesis by simp
qed

end
